theory Spec2Isabelle
  imports Complex_Main "HOL-Library.AList" "HOL-Library.Sublist"
begin

section \<open>AgentOS dev server: data model\<close>

text \<open>
  The development embeds the standalone dev server (\<^verbatim>\<open>dev-server.js\<close>): its
  reinforcement-learning scorer, its output parser, its workspace executor and its
  dispatch loop. JavaScript objects become records, string-keyed objects become
  association lists in insertion order (the order \<^verbatim>\<open>Object.values\<close> enumerates;
  the performance log, whose keys come from the clients, is read along the prototype
  chain),
  \<^verbatim>\<open>null\<close>/\<^verbatim>\<open>undefined\<close> become \<open>None\<close>, and the clock
  (\<^verbatim>\<open>Date.now()\<close>) is an argument. Strings are lists of characters. Console output,
  the activity feed and the WebSocket broadcast are not part of the state modelled here.
\<close>

datatype task_status = Pending | Active | Review | Completed | Failed | Cancelled

datatype task_risk = Low | High

datatype task_priority = PCritical | PHigh | PMedium | PLow

datatype agent_status = Idle | Working | Cooldown | Offline | AgentError

record file_intent =
  path :: string
  content :: string

record command_intent =
  cwd :: string
  cmd :: string

record subtask_decl =
  s_title :: string
  s_agent :: string
  s_description :: string

record exec_result =
  r_cwd :: string
  r_cmd :: string
  success :: bool
  r_output :: string

text \<open>What \<^verbatim>\<open>callModel\<close> returns: \<^verbatim>\<open>{ output, tokensUsed }\<close>; \<^verbatim>\<open>rawOutput\<close> is read by
  \<^verbatim>\<open>scoreOutput\<close> and absent on that object.\<close>

record model_result =
  m_output :: string
  rawOutput :: "string option"
  tokensUsed :: nat

section \<open>Reinforcement-learning engine\<close>

subsection \<open>Numbers\<close>

text \<open>
  \<^verbatim>\<open>Math.round(x)\<close> is \<open>\<lfloor>x + 1/2\<rfloor>\<close> (ties go up). The quotients rounded in this program
  are \<open>sum / count\<close> with at most 20 small integer scores, \<open>total / types.length\<close>, and
  \<open>(succeeded / n) * 15\<close>; they are modelled as exact rationals. A double quotient of
  small integers lands on the same side of every half-integer as the exact quotient,
  and is exact when the quotient is a half-integer, so the rounded value is the same.
\<close>

definition Math_round :: "rat \<Rightarrow> int" where
  "Math_round x = \<lfloor>x + 1 / 2\<rfloor>"

text \<open>\<^verbatim>\<open>String.prototype.includes\<close>.\<close>

fun str_includes :: "string \<Rightarrow> string \<Rightarrow> bool" where
  "str_includes [] p = (p = [])"
| "str_includes (c # cs) p = (prefix p (c # cs) \<or> str_includes cs p)"

subsection \<open>scoreOutput\<close>

text \<open>
  \<^verbatim>\<open>scoreOutput(task, result, files, execBlocks, execResults)\<close> reads only
  \<^verbatim>\<open>task.status\<close> of the task. \<^verbatim>\<open>execResults\<close> is \<^verbatim>\<open>undefined\<close> when no command was
  run; an array, even an empty one, is truthy.
\<close>

definition tokenScore :: "nat \<Rightarrow> int" where
  "tokenScore t =
     (if t > 0 \<and> t < 500 then 15
      else if t < 2000 then 12
      else if t < 5000 then 8
      else if t < 10000 then 4
      else 0)"

definition raw_text :: "model_result \<Rightarrow> string" where
  "raw_text result =
     (case rawOutput result of
        None \<Rightarrow> m_output result
      | Some r \<Rightarrow> if r = [] then m_output result else r)"

definition scoreOutput ::
  "task_status \<Rightarrow> model_result \<Rightarrow> file_intent list \<Rightarrow> command_intent list
     \<Rightarrow> exec_result list option \<Rightarrow> int" where
  "scoreOutput status result files execBlocks execResults =
     (let raw = raw_text result;
          s1 = (if length files > 0
                then 20 + min 20 (int (length files) * 5) else 0);
          s2 = s1 + (if str_includes raw ''===FILE==='' then 5 else 0);
          s3 = s2 + (if str_includes raw ''===CONTENT==='' then 5 else 0);
          s4 = s3 + (if str_includes raw ''===END_FILE==='' then 5 else 0);
          s5 = s4 + (if length execBlocks > 0 \<and> execResults \<noteq> None
                     then Math_round
                            (of_nat (length (filter success (the execResults)))
                               / of_nat (length execBlocks) * 15)
                     else if length execBlocks = 0 then 10 else 0);
          s6 = s5 + tokenScore (tokensUsed result);
          s7 = s6 + (if status \<noteq> Failed then 15 else 0)
      in min 100 (max 0 s7))"

text \<open>
  The reference formula of the specification, in its own words. The bonus for the
  FILE markers is the parameter \<open>markers\<close>, so that the formula can be read with any
  meaning of "markers present".
\<close>

definition spec_bucket :: "nat \<Rightarrow> int" where
  "spec_bucket t =
     (if 0 < t \<and> t < 500 then 15 else 0)
     + (if 500 \<le> t \<and> t < 2000 then 12 else 0)
     + (if 2000 \<le> t \<and> t < 5000 then 8 else 0)
     + (if 5000 \<le> t \<and> t < 10000 then 4 else 0)"

definition spec_score ::
  "int \<Rightarrow> nat \<Rightarrow> nat \<Rightarrow> exec_result list option \<Rightarrow> nat \<Rightarrow> task_status \<Rightarrow> int" where
  "spec_score markers nF nE R T S =
     (let base = (if nF > 0 then 20 + min 20 (5 * int nF) else 0)
               + markers
               + (if nE > 0 \<and> R \<noteq> None
                  then round (15 * of_nat (length (filter success (the R))) / (of_nat nE :: rat))
                  else if nE = 0 then 10 else 0)
               + spec_bucket T
               + (if S \<noteq> Failed then 15 else 0)
      in max 0 (min 100 base))"

definition marker_count :: "string \<Rightarrow> int" where
  "marker_count raw =
     (if str_includes raw ''===FILE==='' then 1 else 0)
     + (if str_includes raw ''===CONTENT==='' then 1 else 0)
     + (if str_includes raw ''===END_FILE==='' then 1 else 0)"

subsection \<open>Task classification\<close>

text \<open>
  Characters are code units below 256. \<^verbatim>\<open>toLowerCase\<close> maps \<^verbatim>\<open>A\<close>-\<^verbatim>\<open>Z\<close> to
  \<^verbatim>\<open>a\<close>-\<^verbatim>\<open>z\<close>. Every pattern of \<^verbatim>\<open>TASK_TYPE_PATTERNS\<close> is an alternation of
  literals, tested on the lowered text, so \<^verbatim>\<open>pattern.test(text)\<close> is a disjunction of
  substring tests; \<^verbatim>\<open>\b\<close> after a letter asks for the end of the text or a
  non-word character next, and \<^verbatim>\<open>node\.?js\<close> is \<^verbatim>\<open>nodejs\<close> or \<^verbatim>\<open>node.js\<close>.
\<close>

definition toLowerCase :: "string \<Rightarrow> string" where
  "toLowerCase s =
     map (\<lambda>c. let n = (of_char c :: nat)
              in if 65 \<le> n \<and> n \<le> 90 then char_of (n + 32) else c) s"

definition is_word_char :: "char \<Rightarrow> bool" where
  "is_word_char c =
     (let n = (of_char c :: nat)
      in (48 \<le> n \<and> n \<le> 57) \<or> (65 \<le> n \<and> n \<le> 90) \<or> n = 95 \<or> (97 \<le> n \<and> n \<le> 122))"

fun includes_wb :: "string \<Rightarrow> string \<Rightarrow> bool" where
  "includes_wb [] p = False"
| "includes_wb (c # cs) p =
     ((prefix p (c # cs) \<and>
        (case drop (length p) (c # cs) of [] \<Rightarrow> True | d # _ \<Rightarrow> \<not> is_word_char d))
      \<or> includes_wb cs p)"

definition any_of :: "string list \<Rightarrow> string \<Rightarrow> bool" where
  "any_of ps text = list_ex (str_includes text) ps"

definition TASK_TYPE_PATTERNS :: "(string \<times> (string \<Rightarrow> bool)) list" where
  "TASK_TYPE_PATTERNS =
     [(''python'', \<lambda>t. any_of [''python'', ''django'', ''flask'', ''fastapi'', ''pip''] t
                      \<or> includes_wb t ''.py''),
      (''javascript'', \<lambda>t. any_of [''javascript'', ''nodejs'', ''node.js'', ''express'',
                                   ''react'', ''vue'', ''npm''] t
                      \<or> includes_wb t ''.js'' \<or> includes_wb t ''.ts''),
      (''web'', \<lambda>t. any_of [''html'', ''css'', ''website'', ''frontend'', ''webpage'',
                            ''landing page''] t
                      \<or> includes_wb t ''ui''),
      (''api'', any_of [''api'', ''endpoint'', ''rest'', ''graphql'', ''websocket'', ''http'']),
      (''test'', any_of [''test'', ''spec'', ''coverage'', ''jest'', ''mocha'', ''pytest'',
                         ''unittest'']),
      (''refactor'', any_of [''refactor'', ''clean'', ''simplify'', ''extract'', ''optimize'',
                             ''improve'']),
      (''docs'', any_of [''doc'', ''readme'', ''explain'', ''comment'', ''document'',
                         ''markdown'']),
      (''devops'', any_of [''docker'', ''deploy'', ''ci'', ''cd'', ''pipeline'', ''kubernetes'',
                           ''nginx'']),
      (''data'', any_of [''database'', ''sql'', ''mongo'', ''redis'', ''csv'', ''json'', ''data'',
                         ''scrape'', ''crawl'']),
      (''tool'', any_of [''tool'', ''script'', ''cli'', ''utility'', ''helper'', ''automation'',
                         ''bot''])]"

definition classifyTask :: "string \<Rightarrow> string \<Rightarrow> string list" where
  "classifyTask title description =
     (let text = toLowerCase (title @ '' '' @ description);
          types = map fst (filter (\<lambda>(ty, pattern). pattern text) TASK_TYPE_PATTERNS)
      in if length types > 0 then types else [''general''])"

subsection \<open>Performance log\<close>

record score_entry =
  score :: int
  taskId :: string
  timestamp :: nat

record perf_log =
  scores :: "score_entry list"
  avg :: int
  count :: nat

type_synonym agent_log = "(string \<times> perf_log) list"

text \<open>
  \<^verbatim>\<open>memory.performanceLog\<close> is a plain object keyed by agent id; its values are plain
  objects keyed by task type. A property read looks at the own keys of an object and
  then along its prototype chain, which ends in \<^verbatim>\<open>Object.prototype\<close>; an assignment
  makes an own key of the object assigned to. The objects that can come to hold
  performance records are therefore
  \<^item> \<open>Own a\<close>: the object stored under the own key \<open>a\<close> of the log;
  \<^item> \<open>Proto\<close>: \<^verbatim>\<open>Object.prototype\<close> itself, which the key \<^verbatim>\<open>__proto__\<close> names;
  \<^item> \<open>Builtin f\<close>: the function that \<^verbatim>\<open>Object.prototype\<close> holds under the key \<open>f\<close>
    (\<^verbatim>\<open>constructor\<close>, \<^verbatim>\<open>toString\<close>, ...), which the log inherits under that key;
  \<^item> \<open>OnRecord c\<close>: the record stored on \<^verbatim>\<open>Object.prototype\<close> for the task type \<open>c\<close>,
    which the log inherits under the key \<open>c\<close>.

  The log maps each holder to the records stored on it as own keys, in insertion
  order (the order \<^verbatim>\<open>Object.values\<close> enumerates). The task types are the values
  of \<^verbatim>\<open>classifyTask\<close>, the keys of \<^verbatim>\<open>TASK_TYPE_PATTERNS\<close> and \<^verbatim>\<open>general\<close>; none of
  them is the name of a built-in property of an object, a function, an array or a
  number, so a record is found on the holder or, for every holder but \<open>Proto\<close>, on
  \<open>Proto\<close>.
\<close>

datatype holder = Own string | Proto | Builtin string | OnRecord string

type_synonym performance_log = "(holder \<times> agent_log) list"

definition Object_prototype_functions :: "string list" where
  "Object_prototype_functions =
     [''constructor'', ''__defineGetter__'', ''__defineSetter__'', ''hasOwnProperty'',
      ''__lookupGetter__'', ''__lookupSetter__'', ''isPrototypeOf'', ''propertyIsEnumerable'',
      ''toString'', ''valueOf'', ''toLocaleString'']"

definition records_on :: "performance_log \<Rightarrow> holder \<Rightarrow> agent_log" where
  "records_on pl h = (case map_of pl h of None \<Rightarrow> [] | Some al \<Rightarrow> al)"

text \<open>\<^verbatim>\<open>memory.performanceLog[agentId]\<close>: the object found, \<open>None\<close> for
  \<^verbatim>\<open>undefined\<close>.\<close>

definition agent_object :: "performance_log \<Rightarrow> string \<Rightarrow> holder option" where
  "agent_object pl agentId =
     (if map_of pl (Own agentId) \<noteq> None then Some (Own agentId)
      else if agentId = ''__proto__'' then Some Proto
      else if agentId \<in> set Object_prototype_functions then Some (Builtin agentId)
      else if map_of (records_on pl Proto) agentId \<noteq> None then Some (OnRecord agentId)
      else None)"

text \<open>\<^verbatim>\<open>obj[type]\<close> for the object \<open>h\<close>: the record found, with the holder it is
  stored on.\<close>

definition find_record :: "performance_log \<Rightarrow> holder \<Rightarrow> string \<Rightarrow> (holder \<times> perf_log) option" where
  "find_record pl h ty =
     (case map_of (records_on pl h) ty of
        Some l \<Rightarrow> Some (h, l)
      | None \<Rightarrow>
          if h = Proto then None
          else (case map_of (records_on pl Proto) ty of
                  Some l \<Rightarrow> Some (Proto, l)
                | None \<Rightarrow> None))"

text \<open>\<^verbatim>\<open>memory.performanceLog?.[agentId]?.[taskType]\<close>.\<close>

definition lookup_log :: "performance_log \<Rightarrow> string \<Rightarrow> string \<Rightarrow> perf_log option" where
  "lookup_log pl agentId ty =
     (case agent_object pl agentId of
        None \<Rightarrow> None
      | Some h \<Rightarrow> map_option snd (find_record pl h ty))"

definition put_record :: "holder \<Rightarrow> string \<Rightarrow> perf_log \<Rightarrow> performance_log \<Rightarrow> performance_log" where
  "put_record h ty l pl = AList.update h (AList.update ty l (records_on pl h)) pl"

text \<open>\<^verbatim>\<open>xs.slice(-n)\<close>: the last \<open>n\<close> elements, all of them when there are fewer.\<close>

definition slice_last :: "nat \<Rightarrow> 'a list \<Rightarrow> 'a list" where
  "slice_last n xs = drop (length xs - n) xs"

text \<open>
  One round of the loop of \<^verbatim>\<open>recordPerformance\<close>, for one task type; \<open>h\<close> is the
  object \<^verbatim>\<open>memory.performanceLog[agentId]\<close>. When no record is found a fresh one is
  stored on \<open>h\<close>; a record that is found is changed where it is stored, on \<open>h\<close> or on
  \<^verbatim>\<open>Object.prototype\<close>.
\<close>

definition record_type ::
  "holder \<Rightarrow> string \<Rightarrow> int \<Rightarrow> string \<Rightarrow> nat \<Rightarrow> performance_log \<Rightarrow> performance_log" where
  "record_type h ty sc tid now pl =
     (let (owner, lg) = (case find_record pl h ty of
                           None \<Rightarrow> (h, \<lparr>scores = [], avg = 0, count = 0\<rparr>)
                         | Some found \<Rightarrow> found);
          pushed = scores lg @ [\<lparr>score = sc, taskId = tid, timestamp = now\<rparr>];
          kept = (if length pushed > 20 then slice_last 20 pushed else pushed);
          cnt = length kept;
          mean = Math_round (of_int (foldl (\<lambda>s e. s + score e) 0 kept) / of_nat cnt)
      in put_record owner ty \<lparr>scores = kept, avg = mean, count = cnt\<rparr> pl)"

text \<open>The first statement of \<^verbatim>\<open>recordPerformance\<close> stores an empty object under the
  agent id when nothing is found there; the loop then works on the object found.\<close>

definition recordPerformance ::
  "performance_log \<Rightarrow> string \<Rightarrow> string list \<Rightarrow> int \<Rightarrow> string \<Rightarrow> nat \<Rightarrow> performance_log" where
  "recordPerformance pl agentId taskTypes sc tid now =
     (let (h, pl1) = (case agent_object pl agentId of
                        None \<Rightarrow> (Own agentId, AList.update (Own agentId) [] pl)
                      | Some h \<Rightarrow> (h, pl))
      in foldl (\<lambda>p ty. record_type h ty sc tid now p) pl1 taskTypes)"

definition getAgentScore :: "performance_log \<Rightarrow> string \<Rightarrow> string \<Rightarrow> int" where
  "getAgentScore pl agentId taskType =
     (case lookup_log pl agentId taskType of
        None \<Rightarrow> 50
      | Some lg \<Rightarrow> if count lg = 0 then 50 else avg lg)"

text \<open>
  \<^verbatim>\<open>Object.values(agentLog)\<close>: the values of the own enumerable keys of the object. The
  built-in keys of \<^verbatim>\<open>Object.prototype\<close> and of a function are not enumerable. A record
  has the keys \<^verbatim>\<open>scores\<close>, \<^verbatim>\<open>avg\<close> and \<^verbatim>\<open>count\<close> first, whose values (an array and
  two numbers) have neither an \<^verbatim>\<open>avg\<close> nor a \<^verbatim>\<open>scores\<close> property.
\<close>

datatype log_value = Rec perf_log | NoRecord

definition values_of :: "performance_log \<Rightarrow> holder \<Rightarrow> log_value list" where
  "values_of pl h =
     (case h of OnRecord c \<Rightarrow> [NoRecord, NoRecord, NoRecord] | _ \<Rightarrow> [])
     @ map (\<lambda>(ty, l). Rec l) (records_on pl h)"

text \<open>\<^verbatim>\<open>t.avg || 50\<close>: the number 0 is falsy, so an average of 0 counts as 50.\<close>

definition getAgentOverallScore :: "performance_log \<Rightarrow> string \<Rightarrow> int" where
  "getAgentOverallScore pl agentId =
     (case agent_object pl agentId of
        None \<Rightarrow> 50
      | Some h \<Rightarrow>
          (let types = values_of pl h
           in if length types = 0 then 50
              else Math_round
                     (of_int (foldl (\<lambda>s t. s + (case t of
                                                   Rec l \<Rightarrow> if avg l = 0 then 50 else avg l
                                                 | NoRecord \<Rightarrow> 50)) 0 types)
                        / of_nat (length types))))"

text \<open>The sort of \<^verbatim>\<open>getRecentFailures\<close> is stable and descending in the timestamp.\<close>

definition getRecentFailures :: "performance_log \<Rightarrow> string \<Rightarrow> nat" where
  "getRecentFailures pl agentId =
     (case agent_object pl agentId of
        None \<Rightarrow> 0
      | Some h \<Rightarrow>
          (let allScores = concat (map (\<lambda>t. case t of Rec l \<Rightarrow> scores l | NoRecord \<Rightarrow> [])
                                     (values_of pl h));
               sorted = sort_key (\<lambda>e. - int (timestamp e)) allScores;
               recent = take 5 sorted
           in length (filter (\<lambda>s. score s < 30) recent)))"





text \<open>The overall score in the words of the specification: the rounded mean of the
  per-category averages, 50 for an agent without records.\<close>

definition spec_overall :: "performance_log \<Rightarrow> string \<Rightarrow> int" where
  "spec_overall pl agentId =
     (case agent_object pl agentId of
        None \<Rightarrow> 50
      | Some h \<Rightarrow>
          (let al = records_on pl h
           in if al = [] then 50
              else round (of_int (sum_list (map (\<lambda>(ty, l). avg l) al)) / (of_nat (length al) :: rat))))"


section \<open>Output parser\<close>

subsection \<open>Regular expressions\<close>

text \<open>
  The three block patterns are sequences of literals, \<^verbatim>\<open>\s*\<close>, capturing groups
  \<^verbatim>\<open>(.+)\<close> and lazy capturing groups \<^verbatim>\<open>([\s\S]*?)\<close>. The matcher below is the
  backtracking matcher of JavaScript on such sequences: a greedy repetition first
  tries to take one more character and falls back to the rest of the pattern, a lazy
  one first tries the rest of the pattern. It returns the captured groups in order and
  the text after the match. \<^verbatim>\<open>\s\<close> is white space (tab, line feed, vertical tab, form
  feed, carriage return, space, no-break space), \<^verbatim>\<open>.\<close> is any character but a line
  terminator, \<^verbatim>\<open>[\s\S]\<close> is any character.
\<close>

datatype cclass = Space | Dot | AnyChar

definition is_space :: "char \<Rightarrow> bool" where
  "is_space c = ((of_char c :: nat) \<in> {9, 10, 11, 12, 13, 32, 160})"

definition is_line_terminator :: "char \<Rightarrow> bool" where
  "is_line_terminator c = ((of_char c :: nat) \<in> {10, 13})"

fun in_class :: "cclass \<Rightarrow> char \<Rightarrow> bool" where
  "in_class Space c = is_space c"
| "in_class Dot c = (\<not> is_line_terminator c)"
| "in_class AnyChar c = True"

datatype rx_item =
    Lit string
  | Star cclass
  | CapPlus cclass
  | CapStar cclass
  | CapLazy cclass

type_synonym rx = "rx_item list"

text \<open>Adding a character, or an empty group, in front of the groups of a result.\<close>

fun cap_cons :: "char \<Rightarrow> (string list \<times> string) option \<Rightarrow> (string list \<times> string) option" where
  "cap_cons x (Some (cap # caps, rest)) = Some ((x # cap) # caps, rest)"
| "cap_cons x _ = None"

fun cap_open :: "(string list \<times> string) option \<Rightarrow> (string list \<times> string) option" where
  "cap_open (Some (caps, rest)) = Some ([] # caps, rest)"
| "cap_open None = None"

function rx_match :: "rx \<Rightarrow> string \<Rightarrow> (string list \<times> string) option" where
  "rx_match [] s = Some ([], s)"
| "rx_match (Lit l # r) s =
     (if prefix l s then rx_match r (drop (length l) s) else None)"
| "rx_match (Star c # r) [] = rx_match r []"
| "rx_match (Star c # r) (x # xs) =
     (if in_class c x
      then (case rx_match (Star c # r) xs of
              Some res \<Rightarrow> Some res
            | None \<Rightarrow> rx_match r (x # xs))
      else rx_match r (x # xs))"
| "rx_match (CapPlus c # r) [] = None"
| "rx_match (CapPlus c # r) (x # xs) =
     (if in_class c x then cap_cons x (rx_match (CapStar c # r) xs) else None)"
| "rx_match (CapStar c # r) [] = cap_open (rx_match r [])"
| "rx_match (CapStar c # r) (x # xs) =
     (if in_class c x
      then (case cap_cons x (rx_match (CapStar c # r) xs) of
              Some res \<Rightarrow> Some res
            | None \<Rightarrow> cap_open (rx_match r (x # xs)))
      else cap_open (rx_match r (x # xs)))"
| "rx_match (CapLazy c # r) [] = cap_open (rx_match r [])"
| "rx_match (CapLazy c # r) (x # xs) =
     (case cap_open (rx_match r (x # xs)) of
        Some res \<Rightarrow> Some res
      | None \<Rightarrow> if in_class c x then cap_cons x (rx_match (CapLazy c # r) xs) else None)"
  by pat_completeness auto
termination
  by (relation "measures [\<lambda>(r, s). length s, \<lambda>(r, s). length r]") auto

text \<open>
  \<^verbatim>\<open>regex.exec\<close> from the start of a text: the leftmost position where the pattern
  matches. The result is the text before the match, the groups and the text after it.
\<close>

fun rx_exec :: "rx \<Rightarrow> string \<Rightarrow> (string \<times> string list \<times> string) option" where
  "rx_exec r [] =
     (case rx_match r [] of
        Some (caps, rest) \<Rightarrow> Some ([], caps, rest)
      | None \<Rightarrow> None)"
| "rx_exec r (x # xs) =
     (case rx_match r (x # xs) of
        Some (caps, rest) \<Rightarrow> Some ([], caps, rest)
      | None \<Rightarrow>
          (case rx_exec r xs of
             Some (pre, caps, rest) \<Rightarrow> Some (x # pre, caps, rest)
           | None \<Rightarrow> None))"

text \<open>A match ends inside the text it was searched in.\<close>

lemma cap_cons_Some:
  "cap_cons x m = Some (caps, rest) \<Longrightarrow> \<exists>cap caps'. m = Some (cap # caps', rest) \<and> caps = (x # cap) # caps'"
  by (cases "(x, m)" rule: cap_cons.cases) auto

lemma cap_open_Some:
  "cap_open m = Some (caps, rest) \<Longrightarrow> \<exists>caps'. m = Some (caps', rest) \<and> caps = [] # caps'"
  by (cases m rule: cap_open.cases) auto

lemma rx_match_length:
  "rx_match r s = Some (caps, rest) \<Longrightarrow> length rest \<le> length s"
proof (induction r s arbitrary: caps rest rule: rx_match.induct)
  case (2 l r s)
  then show ?case by (fastforce split: if_splits)
next
  case (4 c r x xs)
  then show ?case by (fastforce split: if_splits option.splits)
next
  case (6 c r x xs)
  then show ?case by (fastforce split: if_splits dest!: cap_cons_Some)
next
  case (7 c r)
  then show ?case by (fastforce dest!: cap_open_Some)
next
  case (8 c r x xs)
  then show ?case
    by (fastforce split: if_splits option.splits dest!: cap_cons_Some cap_open_Some)
next
  case (9 c r)
  then show ?case by (fastforce dest!: cap_open_Some)
next
  case (10 c r x xs)
  then show ?case
    by (fastforce split: if_splits option.splits dest!: cap_cons_Some cap_open_Some)
qed simp_all

lemma rx_exec_length:
  "rx_exec r s = Some (pre, caps, rest) \<Longrightarrow> length rest \<le> length s"
  by (induction s arbitrary: pre) (fastforce split: option.splits dest: rx_match_length)+

text \<open>
  The loop \<^verbatim>\<open>while ((match = regex.exec(output)) !== null)\<close> with a global pattern:
  each search starts where the last match ended. A match that consumes nothing would
  leave \<^verbatim>\<open>lastIndex\<close> in place and the loop would never end; that is the value
  \<open>None\<close>.
\<close>

function exec_loop :: "rx \<Rightarrow> string \<Rightarrow> string list list option" where
  "exec_loop r s =
     (case rx_exec r s of
        None \<Rightarrow> Some []
      | Some (pre, caps, rest) \<Rightarrow>
          if length rest < length s
          then (case exec_loop r rest of
                  Some ms \<Rightarrow> Some (caps # ms)
                | None \<Rightarrow> None)
          else None)"
  by pat_completeness auto
termination
  by (relation "measure (\<lambda>(r, s). length s)") auto

text \<open>
  \<^verbatim>\<open>output.replace(regex, '')\<close> with a global pattern removes every match, searching
  again after each one; after a match that consumes nothing the search moves one
  character on.
\<close>

function replace_all :: "rx \<Rightarrow> string \<Rightarrow> string" where
  "replace_all r s =
     (case rx_exec r s of
        None \<Rightarrow> s
      | Some (pre, caps, rest) \<Rightarrow>
          if length rest < length s then pre @ replace_all r rest
          else (case rest of
                  [] \<Rightarrow> pre
                | x # xs \<Rightarrow> pre @ x # replace_all r xs))"
  by pat_completeness auto
termination
  by (relation "measure (\<lambda>(r, s). length s)") (auto dest: rx_exec_length)

subsection \<open>String helpers\<close>

definition trimStart :: "string \<Rightarrow> string" where
  "trimStart s = dropWhile is_space s"

definition trimEnd :: "string \<Rightarrow> string" where
  "trimEnd s = rev (dropWhile is_space (rev s))"

definition trim :: "string \<Rightarrow> string" where
  "trim s = trimEnd (trimStart s)"

text \<open>\<^verbatim>\<open>replace(/\n{3,}/g, '\n\n')\<close>: a run of three or more line feeds becomes two.\<close>

function (sequential) collapse_newlines :: "string \<Rightarrow> string" where
  "collapse_newlines (a # b # c # s) =
     (if a = CHR 0x0A \<and> b = CHR 0x0A \<and> c = CHR 0x0A
      then CHR 0x0A # CHR 0x0A # collapse_newlines (dropWhile (\<lambda>d. d = CHR 0x0A) s)
      else a # collapse_newlines (b # c # s))"
| "collapse_newlines s = s"
  by pat_completeness auto
termination
  by (relation "measure length") (auto simp: le_imp_less_Suc length_dropWhile_le less_Suc_eq_le le_SucI)

text \<open>The group \<open>n\<close> of a match (\<^verbatim>\<open>match[n]\<close>, counted from 1).\<close>

definition group :: "string list \<Rightarrow> nat \<Rightarrow> string" where
  "group caps n = (if 0 < n \<and> n \<le> length caps then caps ! (n - 1) else [])"

subsection \<open>parseFiles, parseSubtasks, parseExecBlocks\<close>

definition nl :: string where
  "nl = [CHR 0x0A]"

definition FILE_RX :: rx where
  "FILE_RX = [Lit ''===FILE==='', Star Space, Lit (nl @ ''path:''), Star Space, CapPlus Dot,
              Lit (nl @ ''===CONTENT==='' @ nl), CapLazy AnyChar, Lit ''===END_FILE==='']"

definition SUBTASK_RX :: rx where
  "SUBTASK_RX = [Lit ''===SUBTASK==='', Star Space, Lit (nl @ ''title:''), Star Space, CapPlus Dot,
                 Lit (nl @ ''agent:''), Star Space, CapPlus Dot,
                 Lit (nl @ ''description:''), Star Space, CapLazy AnyChar,
                 Lit ''===END_SUBTASK==='']"

definition EXEC_RX :: rx where
  "EXEC_RX = [Lit ''===EXEC==='', Star Space, Lit (nl @ ''cwd:''), Star Space, CapPlus Dot,
              Lit (nl @ ''cmd:''), Star Space, CapPlus Dot, Lit (nl @ ''===END_EXEC==='')]"

record parsed_files =
  files :: "file_intent list"
  explanation :: string

definition parseFiles :: "string \<Rightarrow> parsed_files option" where
  "parseFiles out =
     (case exec_loop FILE_RX out of
        None \<Rightarrow> None
      | Some ms \<Rightarrow>
          Some \<lparr>files = map (\<lambda>m. \<lparr>path = trim (group m 1), content = trimEnd (group m 2)\<rparr>) ms,
                explanation = trim (collapse_newlines (trim (replace_all FILE_RX out)))\<rparr>)"

definition parseSubtasks :: "string \<Rightarrow> subtask_decl list option" where
  "parseSubtasks out =
     (case exec_loop SUBTASK_RX out of
        None \<Rightarrow> None
      | Some ms \<Rightarrow>
          Some (map (\<lambda>m. \<lparr>s_title = trim (group m 1), s_agent = trim (group m 2),
                            s_description = trim (group m 3)\<rparr>) ms))"

definition parseExecBlocks :: "string \<Rightarrow> command_intent list option" where
  "parseExecBlocks out =
     (case exec_loop EXEC_RX out of
        None \<Rightarrow> None
      | Some ms \<Rightarrow> Some (map (\<lambda>m. \<lparr>cwd = trim (group m 1), cmd = trim (group m 2)\<rparr>) ms))"

text \<open>
  The residual explanation in the words of the specification: the input with the
  recognized blocks of the given kinds removed and blank lines collapsed.
\<close>

definition residual :: "rx list \<Rightarrow> string \<Rightarrow> string" where
  "residual kinds txt = trim (collapse_newlines (trim (fold replace_all kinds txt)))"

section \<open>Workspace executor\<close>

subsection \<open>Paths\<close>

text \<open>
  \<^verbatim>\<open>path.join\<close> and \<^verbatim>\<open>path.normalize\<close> of Node.js on POSIX: the arguments that are
  not empty are joined with a slash and the result is normalized, that is, empty and
  \<^verbatim>\<open>.\<close> segments are dropped, a \<^verbatim>\<open>..\<close> segment removes the segment before it (at
  the root of an absolute path it is dropped, in a relative path it is kept when
  nothing is left to remove), and a trailing slash is kept.
\<close>

fun split_on :: "char \<Rightarrow> string \<Rightarrow> string list" where
  "split_on d [] = [[]]"
| "split_on d (x # xs) =
     (if x = d then [] # split_on d xs
      else (case split_on d xs of
              w # ws \<Rightarrow> (x # w) # ws
            | [] \<Rightarrow> [[x]]))"

fun join_with :: "string \<Rightarrow> string list \<Rightarrow> string" where
  "join_with d [] = []"
| "join_with d [x] = x"
| "join_with d (x # y # ys) = x @ d @ join_with d (y # ys)"

fun normalizeString :: "bool \<Rightarrow> string list \<Rightarrow> string list \<Rightarrow> string list" where
  "normalizeString allowAboveRoot res [] = res"
| "normalizeString allowAboveRoot res (seg # segs) =
     (if seg = [] \<or> seg = ''.'' then normalizeString allowAboveRoot res segs
      else if seg = ''..'' then
        (if res \<noteq> [] \<and> last res \<noteq> ''..''
         then normalizeString allowAboveRoot (butlast res) segs
         else if allowAboveRoot then normalizeString allowAboveRoot (res @ [''..'']) segs
         else normalizeString allowAboveRoot res segs)
      else normalizeString allowAboveRoot (res @ [seg]) segs)"

definition normalize :: "string \<Rightarrow> string" where
  "normalize p =
     (if p = [] then ''.''
      else
        (let isAbsolute = (hd p = CHR ''/'');
             trailingSeparator = (last p = CHR ''/'');
             np = join_with ''/'' (normalizeString (\<not> isAbsolute) [] (split_on CHR ''/'' p))
         in if np = [] then (if isAbsolute then ''/'' else if trailingSeparator then ''./'' else ''.'')
            else (let np' = (if trailingSeparator then np @ ''/'' else np)
                  in if isAbsolute then ''/'' @ np' else np')))"

definition path_join :: "string \<Rightarrow> string \<Rightarrow> string" where
  "path_join a b =
     (let joined = join_with ''/'' (filter (\<lambda>s. s \<noteq> []) [a, b])
      in if joined = [] then ''.'' else normalize joined)"

text \<open>\<^verbatim>\<open>String.prototype.startsWith\<close> is \<^const>\<open>prefix\<close>. A path is inside a root when it
  is the root or continues it after a slash; strictly inside when it continues it.\<close>

definition strictly_inside :: "string \<Rightarrow> string \<Rightarrow> bool" where
  "strictly_inside wroot p = (prefix (wroot @ ''/'') p \<and> p \<noteq> wroot @ ''/'')"

definition inside :: "string \<Rightarrow> string \<Rightarrow> bool" where
  "inside wroot p = (p = wroot \<or> prefix (wroot @ ''/'') p)"

subsection \<open>The outside world\<close>

text \<open>
  What the server cannot decide is a parameter: the workspace root
  (\<^verbatim>\<open>PROJECT_ROOT\<close>, an absolute normalized path), the outcome of a shell command run in a
  directory (whether \<^verbatim>\<open>execSync\<close> returned, and the text it gave or the error text),
  the outcome of the file-system calls, and the numbers \<^verbatim>\<open>Math.random()\<close> returns, in
  order. The disk is the list of writes made, oldest first, and the commands run are
  listed with the directory they ran in; directories made are not recorded.

  \<open>fs_write e w p c\<close> is the message of the error thrown when, after the writes and
  commands \<open>w\<close>, the directory of the path \<open>p\<close> is made (\<^verbatim>\<open>fs.mkdir\<close>, recursive) and the
  text \<open>c\<close> is written to \<open>p\<close> (\<^verbatim>\<open>fs.writeFile\<close>); \<open>None\<close> when both calls succeed.
  \<open>fs_mkdir e w p\<close> is the message of the error thrown when the directory \<open>p\<close> does not
  exist and making it fails; \<open>None\<close> when the directory exists or is made. Writing to
  a path that names a directory fails, for one.
\<close>

record effects =
  disk :: "(string \<times> string) list"
  commands :: "(string \<times> string) list"

record env =
  PROJECT_ROOT :: string
  execSync :: "string \<Rightarrow> string \<Rightarrow> bool \<times> string"
  fs_write :: "effects \<Rightarrow> string \<Rightarrow> string \<Rightarrow> string option"
  fs_mkdir :: "effects \<Rightarrow> string \<Rightarrow> string option"
  random :: "nat \<Rightarrow> rat"

subsection \<open>writeFiles and runExecBlocks\<close>

text \<open>
  Both functions return their list, or throw: the value is then \<open>Inl\<close> of the message
  of the error, with the writes made and the commands run before it. Neither function
  catches an error of the file system; \<^verbatim>\<open>runExecBlocks\<close> catches the errors of
  \<^verbatim>\<open>execSync\<close>.
\<close>

fun writeFiles :: "env \<Rightarrow> file_intent list \<Rightarrow> effects \<Rightarrow> (string + string list) \<times> effects" where
  "writeFiles e [] fx = (Inr [], fx)"
| "writeFiles e (file # fs) fx =
     (let fullPath = path_join (PROJECT_ROOT e) (path file)
      in case fs_write e fx fullPath (content file) of
           Some message \<Rightarrow> (Inl message, fx)
         | None \<Rightarrow>
             (let fx1 = fx\<lparr>disk := disk fx @ [(fullPath, content file)]\<rparr>;
                  (r, fx2) = writeFiles e fs fx1
              in (case r of
                    Inl message \<Rightarrow> Inl message
                  | Inr written \<Rightarrow> Inr (path file # written),
                  fx2)))"

fun runExecBlocks ::
  "env \<Rightarrow> command_intent list \<Rightarrow> effects \<Rightarrow> (string + exec_result list) \<times> effects" where
  "runExecBlocks e [] fx = (Inr [], fx)"
| "runExecBlocks e (block # bs) fx =
     (let fullCwd = path_join (PROJECT_ROOT e) (cwd block)
      in if \<not> prefix (PROJECT_ROOT e) fullCwd then runExecBlocks e bs fx
         else
           (case fs_mkdir e fx fullCwd of
              Some message \<Rightarrow> (Inl message, fx)
            | None \<Rightarrow>
                (let (ok, out) = execSync e fullCwd (cmd block);
                     res = \<lparr>r_cwd = cwd block, r_cmd = cmd block, success = ok,
                            r_output = (if ok then slice_last 500 out else slice_last 300 out)\<rparr>;
                     fx1 = fx\<lparr>commands := commands fx @ [(fullCwd, cmd block)]\<rparr>;
                     (r, fx2) = runExecBlocks e bs fx1
                 in (case r of
                       Inl message \<Rightarrow> Inl message
                     | Inr results \<Rightarrow> Inr (res # results),
                     fx2))))"

section \<open>Agents, tasks and the server state\<close>

text \<open>
  An agent object with the fields of its configuration that the server reads. A task
  object, and the result attached to it. Fields that are only copied for display
  (\<^verbatim>\<open>agentName\<close>, \<^verbatim>\<open>model\<close>, \<^verbatim>\<open>lastActive\<close>, \<^verbatim>\<open>filePaths\<close>) are left out.
\<close>

record agent =
  a_id :: string
  a_name :: string
  provider :: string
  energyRechargeRate :: "nat option"
  a_status :: agent_status
  energy :: nat
  maxEnergy :: nat
  xp :: nat
  level :: nat
  tasksCompleted :: nat
  currentTaskId :: "string option"
  totalTokensUsed :: nat
  errorCount :: nat
  cooldownUntil :: "nat option"

record task_result =
  res_success :: bool
  res_output :: string
  res_rawOutput :: "string option"
  res_tokensUsed :: nat
  res_files :: "string list"
  fileContents :: "file_intent list option"
  execBlocks :: "command_intent list option"
  execResults :: "exec_result list option"
  perfScore :: "int option"
  res_taskTypes :: "string list option"

record task =
  t_id :: string
  title :: string
  description :: string
  t_status :: task_status
  risk :: task_risk
  priority :: task_priority
  assignedAgentId :: "string option"
  createdBy :: string
  parentTaskId :: "string option"
  depth :: nat
  created :: nat
  started :: "nat option"
  completed :: "nat option"
  t_result :: "task_result option"
  tags :: "string list"
  preferredAgentId :: string

text \<open>
  The module-level variables. An agent object is known by its position in
  \<^verbatim>\<open>agents\<close>, which only grows; a task object is known by its id, which
  \<^verbatim>\<open>taskCounter\<close> makes fresh. \<open>detached\<close> holds the task objects that
  \<^verbatim>\<open>cleanupTasks\<close> dropped from \<^verbatim>\<open>tasks\<close>: an execution still running keeps its
  object. \<open>running\<close> lists the executions launched and not yet back from the model
  call, \<open>randomCount\<close> counts the calls of \<^verbatim>\<open>Math.random()\<close>. The task history and the
  agent statistics of the persistent memory are written but never read by the
  functions modelled here, and are left out.
\<close>

record state =
  agents :: "agent list"
  tasks :: "task list"
  detached :: "task list"
  archivedTaskCount :: nat
  taskCounter :: nat
  totalGlobalTokens :: nat
  autoApproveAll :: bool
  performanceLog :: performance_log
  world :: effects
  randomCount :: nat
  running :: "(string \<times> nat) list"

definition update_task :: "string \<Rightarrow> (task \<Rightarrow> task) \<Rightarrow> state \<Rightarrow> state" where
  "update_task tid f s =
     s\<lparr>tasks := map (\<lambda>t. if t_id t = tid then f t else t) (tasks s),
       detached := map (\<lambda>t. if t_id t = tid then f t else t) (detached s)\<rparr>"

definition update_agent :: "nat \<Rightarrow> (agent \<Rightarrow> agent) \<Rightarrow> state \<Rightarrow> state" where
  "update_agent i f s =
     (if i < length (agents s) then s\<lparr>agents := (agents s)[i := f (agents s ! i)]\<rparr> else s)"

text \<open>\<^verbatim>\<open>tasks.find(t => t.id === taskId)\<close>, and the object an execution holds.\<close>

definition find_task :: "state \<Rightarrow> string \<Rightarrow> task option" where
  "find_task s tid = find (\<lambda>t. t_id t = tid) (tasks s)"

definition held_task :: "state \<Rightarrow> string \<Rightarrow> task option" where
  "held_task s tid = find (\<lambda>t. t_id t = tid) (tasks s @ detached s)"

subsection \<open>Task ids\<close>

function show_nat :: "nat \<Rightarrow> string" where
  "show_nat n =
     (if n < 10 then [char_of (48 + n)]
      else show_nat (n div 10) @ [char_of (48 + n mod 10)])"
  by pat_completeness auto
termination
  by (relation "measure id") auto

definition padStart :: "nat \<Rightarrow> char \<Rightarrow> string \<Rightarrow> string" where
  "padStart n c s = replicate (n - length s) c @ s"

definition task_id_of :: "nat \<Rightarrow> string" where
  "task_id_of n = ''TASK-'' @ padStart 3 CHR ''0'' (show_nat n)"

subsection \<open>cleanupTasks\<close>

definition is_finished :: "task \<Rightarrow> bool" where
  "is_finished t = (t_status t = Completed \<or> t_status t = Cancelled \<or> t_status t = Failed)"

definition cleanupTasks :: "state \<Rightarrow> state" where
  "cleanupTasks s =
     (let finished = filter is_finished (tasks s)
      in if length finished > 30
         then
           (let toArchive = take (length finished - 30)
                              (sort_key (\<lambda>t. case completed t of None \<Rightarrow> 0 | Some c \<Rightarrow> c)
                                 finished);
                archiveIds = remdups (map t_id toArchive)
            in s\<lparr>archivedTaskCount := archivedTaskCount s + length archiveIds,
                 tasks := filter (\<lambda>t. t_id t \<notin> set archiveIds) (tasks s),
                 detached := detached s @ filter (\<lambda>t. t_id t \<in> set archiveIds) (tasks s)\<rparr>)
         else s)"

subsection \<open>Agent selection\<close>

definition is_bridge :: "agent \<Rightarrow> bool" where
  "is_bridge a = (provider a = ''cursor-bridge'' \<or> provider a = ''copilot-bridge'')"

text \<open>\<^verbatim>\<open>getCallableAgents\<close>, as positions in \<^verbatim>\<open>agents\<close>.\<close>

definition getCallableAgents :: "state \<Rightarrow> nat list" where
  "getCallableAgents s =
     filter (\<lambda>i. a_status (agents s ! i) = Idle \<and> \<not> is_bridge (agents s ! i)
                  \<and> a_status (agents s ! i) \<noteq> Offline)
       [0 ..< length (agents s)]"

definition finalScore :: "performance_log \<Rightarrow> string \<Rightarrow> string list \<Rightarrow> rat" where
  "finalScore pl aid types =
     (let typeScore = of_int (foldl (\<lambda>sc ty. sc + getAgentScore pl aid ty) 0 types)
                        / of_nat (length types);
          totalTasksForTypes =
            foldl (\<lambda>sum ty. sum + (case lookup_log pl aid ty of None \<Rightarrow> 0 | Some l \<Rightarrow> count l))
              0 types;
          explorationBonus = (if totalTasksForTypes < 3 then 15 else 0);
          failurePenalty = of_nat (getRecentFailures pl aid) * 10
      in typeScore + explorationBonus - failurePenalty)"

text \<open>The loop over the top candidates: \<^verbatim>\<open>roll -= Math.max(1, score)\<close> until
  \<^verbatim>\<open>roll <= 0\<close>.\<close>

fun pick_roll :: "rat \<Rightarrow> (nat \<times> rat) list \<Rightarrow> nat option" where
  "pick_roll roll [] = None"
| "pick_roll roll ((i, sc) # cs) =
     (let roll' = roll - max 1 sc
      in if roll' \<le> 0 then Some i else pick_roll roll' cs)"

text \<open>The second half of \<^verbatim>\<open>pickAgent\<close>: the candidates are scored and sorted, and one of
  the best three is drawn with the number \<open>r\<close> that \<^verbatim>\<open>Math.random()\<close> returned.\<close>

definition weighted_pick :: "rat \<Rightarrow> state \<Rightarrow> nat list \<Rightarrow> string \<Rightarrow> string \<Rightarrow> nat" where
  "weighted_pick r s available ttl desc =
     (let types = classifyTask ttl desc;
          scored = map (\<lambda>i. (i, finalScore (performanceLog s) (a_id (agents s ! i)) types))
                     available;
          sorted = sort_key (\<lambda>(i, sc). - sc) scored;
          topN = take (min 3 (length sorted)) sorted;
          totalWeight = foldl (\<lambda>w (i, sc). w + max 1 sc) 0 topN;
          roll = r * totalWeight
      in case pick_roll roll topN of
           Some i \<Rightarrow> i
         | None \<Rightarrow> (case topN of (i, sc) # rest \<Rightarrow> i | [] \<Rightarrow> hd available))"

definition pickAgent :: "env \<Rightarrow> state \<Rightarrow> string \<Rightarrow> string \<Rightarrow> string \<Rightarrow> nat option \<times> state" where
  "pickAgent e s preferred ttl desc =
     (let available = getCallableAgents s
      in if length available = 0 then (None, s)
         else
           (case (if preferred \<noteq> [] \<and> preferred \<noteq> ''auto''
                  then find (\<lambda>i. a_id (agents s ! i) = preferred) available
                  else None) of
              Some i \<Rightarrow> (Some i, s)
            | None \<Rightarrow>
                (Some (weighted_pick (random e (randomCount s)) s available ttl desc),
                 s\<lparr>randomCount := randomCount s + 1\<rparr>)))"

subsection \<open>runDispatch and createTask\<close>

text \<open>
  One round of the loop of \<^verbatim>\<open>runDispatch\<close>; \<open>launch\<close> is the part after an agent was
  found. \<^verbatim>\<open>executeTask\<close> runs up to its first \<^verbatim>\<open>await\<close>, the model call, and changes
  nothing before it: the execution is added to \<open>running\<close>.
\<close>

definition launch :: "nat \<Rightarrow> string \<Rightarrow> nat \<Rightarrow> state \<Rightarrow> state" where
  "launch now tid i s =
     (let s1 = update_agent i (\<lambda>a. a\<lparr>a_status := Working, currentTaskId := Some tid\<rparr>) s;
          s2 = update_task tid
                 (\<lambda>t. t\<lparr>t_status := Active, assignedAgentId := Some (a_id (agents s ! i)),
                        started := Some now\<rparr>) s1
      in s2\<lparr>running := running s2 @ [(tid, i)]\<rparr>)"

definition dispatch_one :: "env \<Rightarrow> nat \<Rightarrow> state \<Rightarrow> string \<Rightarrow> state" where
  "dispatch_one e now s tid =
     (case find_task s tid of
        None \<Rightarrow> s
      | Some t \<Rightarrow>
          (case pickAgent e s (preferredAgentId t) (title t) (description t) of
             (None, s1) \<Rightarrow> s1
           | (Some i, s1) \<Rightarrow> launch now tid i s1))"

definition runDispatch :: "env \<Rightarrow> nat \<Rightarrow> state \<Rightarrow> state" where
  "runDispatch e now s =
     (let pendingTasks = map t_id (filter (\<lambda>t. t_status t = Pending) (tasks s))
      in foldl (dispatch_one e now) s pendingTasks)"

text \<open>\<^verbatim>\<open>createTask(title, description, preferredAgentId)\<close>; the last argument may be
  \<^verbatim>\<open>undefined\<close>. It returns the id of the new task with the new state.\<close>

definition createTask ::
  "env \<Rightarrow> nat \<Rightarrow> state \<Rightarrow> string \<Rightarrow> string \<Rightarrow> string option \<Rightarrow> string \<times> state" where
  "createTask e now s ttl desc preferred =
     (let rsk = (if autoApproveAll s then Low
                 else if any_of [''test'', ''doc'', ''readme'', ''comment'', ''type'', ''hello'',
                                 ''simple'', ''example''] (toLowerCase ttl)
                 then Low else High);
          types = classifyTask ttl desc;
          n = taskCounter s + 1;
          t = \<lparr>t_id = task_id_of n, title = ttl, description = desc, t_status = Pending,
               risk = rsk, priority = PMedium, assignedAgentId = None, createdBy = ''user'',
               parentTaskId = None, depth = 0, created = now, started = None,
               completed = None, t_result = None, tags = types,
               preferredAgentId = (case preferred of
                                     None \<Rightarrow> ''auto''
                                   | Some p \<Rightarrow> if p = [] then ''auto'' else p)\<rparr>;
          s1 = s\<lparr>taskCounter := n, tasks := tasks s @ [t]\<rparr>
      in (task_id_of n, runDispatch e now s1))"

subsection \<open>executeTask\<close>

text \<open>
  What the model call gave: \<^verbatim>\<open>{ output, tokensUsed }\<close>, or an error thrown with its
  \<^verbatim>\<open>status\<close> (absent on errors that are not HTTP errors) and its \<^verbatim>\<open>message\<close>.
\<close>

datatype model_outcome = Returned model_result | Threw "nat option" string

record parsed_output =
  p_files :: "file_intent list"
  p_explanation :: string
  p_subtasks :: "subtask_decl list"
  p_execBlocks :: "command_intent list"

definition parse_output :: "string \<Rightarrow> parsed_output option" where
  "parse_output out =
     (case parseFiles out of
        None \<Rightarrow> None
      | Some pf \<Rightarrow>
          (case parseSubtasks out of
             None \<Rightarrow> None
           | Some subs \<Rightarrow>
               (case parseExecBlocks out of
                  None \<Rightarrow> None
                | Some ex \<Rightarrow>
                    Some \<lparr>p_files = files pf, p_explanation = explanation pf,
                          p_subtasks = subs, p_execBlocks = ex\<rparr>)))"

text \<open>
  The loop over the subtasks. \<open>pid\<close> and \<open>pdepth\<close> are the id and the depth of the
  parent task, \<open>aid\<close> the id of the agent.
\<close>

fun spawn_subtasks ::
  "env \<Rightarrow> nat \<Rightarrow> string \<Rightarrow> nat \<Rightarrow> string \<Rightarrow> state \<Rightarrow> subtask_decl list \<Rightarrow> state" where
  "spawn_subtasks e now pid pdepth aid s [] = s"
| "spawn_subtasks e now pid pdepth aid s (sub # subs) =
     (let (cid, s1) = createTask e now s (s_title sub) (s_description sub)
                        (Some (if s_agent sub = ''auto'' then ''auto'' else s_agent sub));
          s2 = update_task cid
                 (\<lambda>c. c\<lparr>parentTaskId := Some pid, depth := pdepth + 1,
                        createdBy := ''agent:'' @ aid\<rparr>) s1
      in spawn_subtasks e now pid pdepth aid s2 subs)"

text \<open>
  The branch on the files and the risk of the task: the result object and the new
  status and completion time of the task, or \<open>Inl\<close> of the message of the error that
  \<^verbatim>\<open>writeFiles\<close> or \<^verbatim>\<open>runExecBlocks\<close> threw; with the disk and commands after it.
\<close>

definition apply_output ::
  "env \<Rightarrow> nat \<Rightarrow> task \<Rightarrow> task_result \<Rightarrow> file_intent list \<Rightarrow> command_intent list \<Rightarrow> effects
     \<Rightarrow> (string + task_result \<times> task_status \<times> nat option) \<times> effects" where
  "apply_output e now t res fs blocks w =
     (if length fs > 0 \<and> risk t = Low then
        (case writeFiles e fs w of
           (Inl message, wa) \<Rightarrow> (Inl message, wa)
         | (Inr written, wa) \<Rightarrow>
             if length blocks > 0
             then (case runExecBlocks e blocks wa of
                     (Inl message, wb) \<Rightarrow> (Inl message, wb)
                   | (Inr results, wb) \<Rightarrow>
                       (Inr (res\<lparr>execResults := Some results\<rparr>, Completed, Some now), wb))
             else (Inr (res, Completed, Some now), wa))
      else if length fs > 0 \<and> risk t = High then
        (Inr (res\<lparr>execBlocks := Some blocks\<rparr>, Review, completed t), w)
      else (Inr (res, Completed, Some now), w))"

text \<open>
  The \<^verbatim>\<open>try\<close> block after the model call returned, for the task \<open>tid\<close> held by the
  execution and the agent at position \<open>ai\<close>. The first component is \<open>None\<close> when the
  block ran to its end, and the message of the error when \<^verbatim>\<open>writeFiles\<close> or
  \<^verbatim>\<open>runExecBlocks\<close> threw: the state is then the one at the throw, with the agent
  already charged and the result already attached to the task, and the rest of the
  block (the score, the subtask loop) has not run.
\<close>

definition task_succeeded ::
  "env \<Rightarrow> nat \<Rightarrow> string \<Rightarrow> nat \<Rightarrow> model_result \<Rightarrow> parsed_output \<Rightarrow> state \<Rightarrow> string option \<times> state" where
  "task_succeeded e now tid ai r p s =
     (case held_task s tid of
        None \<Rightarrow> (None, s)
      | Some t \<Rightarrow>
          (let fs = p_files p;
               blocks = p_execBlocks p;
               tokens = tokensUsed r;
               energyCost = min 5 ((tokens + 999) div 1000);
               gain = 20 + min 30 (tokens div 100);
               s1 = update_agent ai
                      (\<lambda>a. a\<lparr>energy := energy a - energyCost,
                             totalTokensUsed := totalTokensUsed a + tokens,
                             tasksCompleted := tasksCompleted a + 1,
                             xp := xp a + gain,
                             level := (xp a + gain) div 300 + 1\<rparr>) s;
               s2 = s1\<lparr>totalGlobalTokens := totalGlobalTokens s1 + tokens\<rparr>;
               res = \<lparr>res_success = True,
                      res_output = (if p_explanation p = [] then m_output r else p_explanation p),
                      res_rawOutput = Some (m_output r), res_tokensUsed = tokens,
                      res_files = map path fs, fileContents = Some fs, execBlocks = None,
                      execResults = None, perfScore = None, res_taskTypes = None\<rparr>
           in case apply_output e now t res fs blocks (world s2) of
                (Inl message, w1) \<Rightarrow>
                  (Some message,
                   update_task tid (\<lambda>t. t\<lparr>t_result := Some res\<rparr>) (s2\<lparr>world := w1\<rparr>))
              | (Inr (res1, status1, done1), w1) \<Rightarrow>
                  (let types = classifyTask (title t) (description t);
                       perf = scoreOutput status1 r fs blocks (execResults res1);
                       aid = a_id (agents s2 ! ai);
                       s3 = s2\<lparr>world := w1,
                               performanceLog :=
                                 recordPerformance (performanceLog s2) aid types perf tid now\<rparr>;
                       s4 = update_task tid
                              (\<lambda>t. t\<lparr>t_status := status1, completed := done1,
                                     t_result := Some (res1\<lparr>perfScore := Some perf,
                                                            res_taskTypes := Some types\<rparr>)\<rparr>) s3
                   in (None,
                       if length (p_subtasks p) > 0 \<and> depth t < 3
                       then spawn_subtasks e now tid (depth t) aid s4 (p_subtasks p)
                       else s4))))"

text \<open>The \<^verbatim>\<open>catch\<close> block, for an error with the given status and message.\<close>

definition task_failed ::
  "env \<Rightarrow> nat \<Rightarrow> string \<Rightarrow> nat \<Rightarrow> nat option \<Rightarrow> string \<Rightarrow> state \<Rightarrow> state" where
  "task_failed e now tid ai err_status message s =
     (case held_task s tid of
        None \<Rightarrow> s
      | Some t \<Rightarrow>
          (let s1 = update_task tid
                      (\<lambda>t. t\<lparr>t_status := Failed, completed := Some now,
                             t_result := Some \<lparr>res_success = False, res_output = message,
                                               res_rawOutput = None, res_tokensUsed = 0,
                                               res_files = [], fileContents = None,
                                               execBlocks = None, execResults = None,
                                               perfScore = None, res_taskTypes = None\<rparr>\<rparr>) s;
               s2 = update_agent ai (\<lambda>a. a\<lparr>errorCount := errorCount a + 1\<rparr>) s1;
               isApiError = (err_status = Some 400 \<or> err_status = Some 500
                             \<or> err_status = Some 502 \<or> err_status = Some 503
                             \<or> (message \<noteq> []
                                 \<and> (str_includes message ''timed out''
                                      \<or> str_includes message ''timeout''
                                      \<or> str_includes message ''ECONNREFUSED'')));
               failScore = (if isApiError then 25 else 0);
               failTypes = classifyTask (title t) (description t);
               s3 = s2\<lparr>performanceLog :=
                         recordPerformance (performanceLog s2) (a_id (agents s2 ! ai))
                           failTypes failScore tid now\<rparr>
           in if err_status = Some 429
              then update_agent ai
                     (\<lambda>a. a\<lparr>cooldownUntil := Some (now + 60000), a_status := Cooldown\<rparr>) s3
              else s3))"

text \<open>The \<^verbatim>\<open>finally\<close> block.\<close>

definition task_finally :: "nat \<Rightarrow> state \<Rightarrow> state" where
  "task_finally ai s =
     cleanupTasks
       (update_agent ai
          (\<lambda>a. a\<lparr>a_status := (if a_status a = Working then Idle else a_status a),
                 currentTaskId := None\<rparr>) s)"

text \<open>
  The execution of task \<open>tid\<close> by the agent at \<open>ai\<close>, from the moment the model call
  settles. An error thrown in the \<^verbatim>\<open>try\<close> block after the model call is an error of
  the file system: it has a message and no \<^verbatim>\<open>status\<close>, and the \<^verbatim>\<open>catch\<close> block runs
  on the state at the throw. The value is \<open>None\<close> if a parsing loop never ends.
\<close>

definition executeTask :: "env \<Rightarrow> nat \<Rightarrow> string \<Rightarrow> nat \<Rightarrow> model_outcome \<Rightarrow> state \<Rightarrow> state option" where
  "executeTask e now tid ai outcome s =
     (let s0 = s\<lparr>running := remove1 (tid, ai) (running s)\<rparr>
      in case outcome of
           Returned r \<Rightarrow>
             (case parse_output (m_output r) of
                None \<Rightarrow> None
              | Some p \<Rightarrow>
                  (case task_succeeded e now tid ai r p s0 of
                     (None, s1) \<Rightarrow> Some (task_finally ai s1)
                   | (Some message, s1) \<Rightarrow>
                       Some (task_finally ai (task_failed e now tid ai None message s1))))
         | Threw err_status message \<Rightarrow>
             Some (task_finally ai (task_failed e now tid ai err_status message s0)))"

subsection \<open>Client commands, REST endpoint and timers\<close>

text \<open>
  \<^verbatim>\<open>approveTask\<close> is called without a handler for its promise: when
  \<^verbatim>\<open>writeFiles\<close> or \<^verbatim>\<open>runExecBlocks\<close> throws, the writes made and the commands run stay
  and nothing else changes.
\<close>

definition approveTask :: "env \<Rightarrow> nat \<Rightarrow> string \<Rightarrow> state \<Rightarrow> state" where
  "approveTask e now tid s =
     (case find_task s tid of
        None \<Rightarrow> s
      | Some t \<Rightarrow>
          (case t_result t of
             None \<Rightarrow> s
           | Some res \<Rightarrow>
               (let complete = update_task tid (\<lambda>t. t\<lparr>t_status := Completed, completed := Some now\<rparr>)
                in case fileContents res of
                     None \<Rightarrow> complete s
                   | Some fs \<Rightarrow>
                       if length fs > 0 then
                         (case writeFiles e fs (world s) of
                            (Inl message, wa) \<Rightarrow> s\<lparr>world := wa\<rparr>
                          | (Inr written, wa) \<Rightarrow>
                              (case execBlocks res of
                                 None \<Rightarrow> complete (s\<lparr>world := wa\<rparr>)
                               | Some blocks \<Rightarrow>
                                   if length blocks > 0 then
                                     (case runExecBlocks e blocks wa of
                                        (Inl message, wb) \<Rightarrow> s\<lparr>world := wb\<rparr>
                                      | (Inr results, wb) \<Rightarrow>
                                          complete
                                            (update_task tid
                                               (\<lambda>t. t\<lparr>t_result := Some (res\<lparr>execResults := Some results\<rparr>)\<rparr>)
                                               (s\<lparr>world := wb\<rparr>)))
                                   else complete (s\<lparr>world := wa\<rparr>)))
                       else complete s)))"

definition rejectTask :: "nat \<Rightarrow> string \<Rightarrow> state \<Rightarrow> state" where
  "rejectTask now tid s =
     (case find_task s tid of
        None \<Rightarrow> s
      | Some t \<Rightarrow> update_task tid (\<lambda>t. t\<lparr>t_status := Cancelled, completed := Some now\<rparr>) s)"

record agent_config =
  c_id :: string
  c_name :: string
  c_provider :: string
  c_energyRechargeRate :: "nat option"

datatype command =
    CreateTask string "string option" "string option" "string list option"
  | AddAgent agent_config
  | ApproveTask string
  | RejectTask string
  | ToggleAutoApprove

text \<open>\<^verbatim>\<open>description || title\<close>.\<close>

definition or_title :: "string option \<Rightarrow> string \<Rightarrow> string" where
  "or_title d ttl = (case d of None \<Rightarrow> ttl | Some x \<Rightarrow> if x = [] then ttl else x)"

text \<open>The agent object that \<^verbatim>\<open>loadAgents\<close> and \<^verbatim>\<open>command:addAgent\<close> build from a
  configuration, with its first status.\<close>

definition new_agent :: "agent_config \<Rightarrow> agent_status \<Rightarrow> agent" where
  "new_agent cfg st =
     \<lparr>a_id = c_id cfg, a_name = c_name cfg, provider = c_provider cfg,
      energyRechargeRate = c_energyRechargeRate cfg, a_status = st,
      energy = 100, maxEnergy = 100, xp = 0, level = 1, tasksCompleted = 0,
      currentTaskId = None, totalTokensUsed = 0, errorCount = 0, cooldownUntil = None\<rparr>"

definition handleCommand :: "env \<Rightarrow> nat \<Rightarrow> command \<Rightarrow> state \<Rightarrow> state" where
  "handleCommand e now c s =
     (case c of
        CreateTask ttl d agentId agentIds \<Rightarrow>
          (case agentIds of
             Some (aid # aids) \<Rightarrow>
               foldl (\<lambda>s a. snd (createTask e now s ttl (or_title d ttl) (Some a))) s (aid # aids)
           | _ \<Rightarrow> snd (createTask e now s ttl (or_title d ttl) agentId))
      | AddAgent cfg \<Rightarrow> s\<lparr>agents := agents s @ [new_agent cfg Idle]\<rparr>
      | ApproveTask tid \<Rightarrow> approveTask e now tid s
      | RejectTask tid \<Rightarrow> rejectTask now tid s
      | ToggleAutoApprove \<Rightarrow> s\<lparr>autoApproveAll := \<not> autoApproveAll s\<rparr>)"

text \<open>\<^verbatim>\<open>POST /api/task\<close>: without a title the answer is 400 and nothing changes.\<close>

definition post_task :: "env \<Rightarrow> nat \<Rightarrow> string option \<Rightarrow> string option \<Rightarrow> string option \<Rightarrow> state \<Rightarrow> state" where
  "post_task e now ttl d agentId s =
     (case ttl of
        None \<Rightarrow> s
      | Some x \<Rightarrow> if x = [] then s else snd (createTask e now s x (or_title d x) agentId))"

text \<open>The recharge timer.\<close>

definition recharge :: "nat \<Rightarrow> state \<Rightarrow> state" where
  "recharge now s =
     s\<lparr>agents :=
         map (\<lambda>a.
               (let a1 = (if a_status a \<noteq> Offline
                          then a\<lparr>energy := min (maxEnergy a)
                                   (energy a + max 5 (case energyRechargeRate a of
                                                        None \<Rightarrow> 5
                                                      | Some r \<Rightarrow> if r = 0 then 5 else r))\<rparr>
                          else a)
                in case cooldownUntil a1 of
                     None \<Rightarrow> a1
                   | Some u \<Rightarrow>
                       if u \<noteq> 0 \<and> now > u
                       then a1\<lparr>cooldownUntil := None,
                               a_status := (if a_status a1 = Cooldown then Idle else a_status a1)\<rparr>
                       else a1))
           (agents s)\<rparr>"

subsection \<open>Runs of the server\<close>

datatype event =
    Command command
  | PostTask "string option" "string option" "string option"
  | DispatchTick
  | RechargeTick
  | ModelDone string nat model_outcome

text \<open>One event at time \<open>now\<close>. A model call can only settle for an execution that is
  running.\<close>

definition step :: "env \<Rightarrow> nat \<Rightarrow> event \<Rightarrow> state \<Rightarrow> state option" where
  "step e now ev s =
     (case ev of
        Command c \<Rightarrow> Some (handleCommand e now c s)
      | PostTask ttl d agentId \<Rightarrow> Some (post_task e now ttl d agentId s)
      | DispatchTick \<Rightarrow> Some (runDispatch e now s)
      | RechargeTick \<Rightarrow> Some (recharge now s)
      | ModelDone tid ai outcome \<Rightarrow>
          if (tid, ai) \<in> set (running s) then executeTask e now tid ai outcome s else None)"

text \<open>The state when the server starts: the agents of \<^verbatim>\<open>loadAgents\<close>, no task, and
  whatever performance log \<^verbatim>\<open>loadMemory\<close> found in the memory file, an object with
  own keys only. The disk and the commands run so far are any.\<close>

definition initial :: "state \<Rightarrow> bool" where
  "initial s \<longleftrightarrow>
     tasks s = [] \<and> detached s = [] \<and> archivedTaskCount s = 0 \<and> taskCounter s = 0
     \<and> totalGlobalTokens s = 0 \<and> autoApproveAll s \<and> running s = [] \<and> randomCount s = 0
     \<and> list_all (\<lambda>(h, al). case h of Own a \<Rightarrow> True | _ \<Rightarrow> False) (performanceLog s)
     \<and> list_all (\<lambda>a. (a_status a = Idle \<or> a_status a = Offline) \<and> energy a = 100
                      \<and> maxEnergy a = 100 \<and> xp a = 0 \<and> level a = 1 \<and> tasksCompleted a = 0
                      \<and> currentTaskId a = None \<and> totalTokensUsed a = 0 \<and> errorCount a = 0
                      \<and> cooldownUntil a = None) (agents s)"

inductive reachable :: "env \<Rightarrow> state \<Rightarrow> bool" for e :: env where
  start: "initial s \<Longrightarrow> reachable e s"
| next_event: "reachable e s \<Longrightarrow> step e now ev s = Some s' \<Longrightarrow> reachable e s'"

subsection \<open>Properties of states\<close>

text \<open>Every task object, in \<^verbatim>\<open>tasks\<close> or held by an execution, has a priority and
  a depth that satisfy \<open>Q\<close>.\<close>

definition task_inv :: "(task_priority \<Rightarrow> nat \<Rightarrow> bool) \<Rightarrow> state \<Rightarrow> bool" where
  "task_inv Q s \<longleftrightarrow> list_all (\<lambda>t. Q (priority t) (depth t)) (tasks s @ detached s)"

definition count_working :: "state \<Rightarrow> nat" where
  "count_working s = length (filter (\<lambda>a. a_status a = Working) (agents s))"

text \<open>Two versions of a task object that agree on what is fixed when the task is
  created.\<close>

definition same_task :: "task \<Rightarrow> task \<Rightarrow> bool" where
  "same_task t t' \<longleftrightarrow>
     t_id t' = t_id t \<and> depth t' = depth t \<and> priority t' = priority t
     \<and> parentTaskId t' = parentTaskId t \<and> createdBy t' = createdBy t"

text \<open>A child of the task \<open>pid\<close> of depth \<open>pdepth\<close>, spawned by the agent \<open>aid\<close>.\<close>

definition child_of :: "string \<Rightarrow> nat \<Rightarrow> string \<Rightarrow> task \<Rightarrow> bool" where
  "child_of pid pdepth aid c \<longleftrightarrow>
     depth c = pdepth + 1 \<and> parentTaskId c = Some pid \<and> createdBy c = ''agent:'' @ aid"

text \<open>The task list holds a task with the id \<open>cid\<close>, and every task with that id is a
  child of \<open>pid\<close>.\<close>

definition has_child :: "string \<Rightarrow> nat \<Rightarrow> string \<Rightarrow> string \<Rightarrow> state \<Rightarrow> bool" where
  "has_child pid pdepth aid cid s \<longleftrightarrow>
     list_ex (\<lambda>c. t_id c = cid) (tasks s)
     \<and> list_all (\<lambda>c. t_id c = cid \<longrightarrow> child_of pid pdepth aid c) (tasks s)"

subsection \<open>Example configurations\<close>

text \<open>A workspace root, a shell in which every command succeeds, a file system in
  which a write fails when the path is the root or ends with a slash (it names a
  directory) and every other call succeeds, and random numbers that are all 0; an
  agent configuration for an OpenAI-compatible provider; the state in which the
  server starts with the given agents and an empty memory.\<close>

definition env0 :: env where
  "env0 = \<lparr>PROJECT_ROOT = ''/srv/agentos/workspace'',
            execSync = (\<lambda>dir c. (True, ''ok'')),
            fs_write = (\<lambda>w p c. if p = ''/srv/agentos/workspace'' \<or> (p \<noteq> [] \<and> last p = CHR ''/'')
                                 then Some ''EISDIR: illegal operation on a directory''
                                 else None),
            fs_mkdir = (\<lambda>w p. None),
            random = (\<lambda>n. 0)\<rparr>"

definition cfg0 :: "string \<Rightarrow> agent_config" where
  "cfg0 aid = \<lparr>c_id = aid, c_name = aid, c_provider = ''openai-compatible'',
                c_energyRechargeRate = None\<rparr>"

definition start_state :: "agent list \<Rightarrow> state" where
  "start_state as =
     \<lparr>agents = as, tasks = [], detached = [], archivedTaskCount = 0, taskCounter = 0,
      totalGlobalTokens = 0, autoApproveAll = True, performanceLog = [],
      world = \<lparr>disk = [], commands = []\<rparr>, randomCount = 0, running = []\<rparr>"

text \<open>A model answer that holds one FILE block, and one that holds one SUBTASK
  block.\<close>

definition one_file_output :: string where
  "one_file_output =
     ''===FILE==='' @ nl @ ''path: app.js'' @ nl @ ''===CONTENT==='' @ nl @ ''x = 1;'' @ nl
       @ ''===END_FILE===''"

definition one_subtask_output :: string where
  "one_subtask_output =
     ''===SUBTASK==='' @ nl @ ''title: add test'' @ nl @ ''agent: auto'' @ nl
       @ ''description: write it'' @ nl @ ''===END_SUBTASK===''"

text \<open>A task object of a given depth with a given status, and a parsed model answer
  that declares one subtask.\<close>

definition task_at_depth :: "nat \<Rightarrow> task_status \<Rightarrow> task" where
  "task_at_depth n st =
     \<lparr>t_id = ''TASK-001'', title = ''fix bug'', description = ''fix bug'', t_status = st,
      risk = Low, priority = PMedium, assignedAgentId = Some ''a1'', createdBy = ''user'',
      parentTaskId = None, depth = n, created = 0, started = Some 0, completed = None,
      t_result = None, tags = [''general''], preferredAgentId = ''auto''\<rparr>"

definition one_subtask :: parsed_output where
  "one_subtask =
     \<lparr>p_files = [], p_explanation = ''ok'',
      p_subtasks = [\<lparr>s_title = ''add test'', s_agent = ''auto'', s_description = ''write it''\<rparr>],
      p_execBlocks = []\<rparr>"

text \<open>A parsed model answer with one file whose path names a directory, and one
  subtask.\<close>

definition directory_file :: parsed_output where
  "directory_file =
     \<lparr>p_files = [\<lparr>path = ''out/'', content = ''x''\<rparr>], p_explanation = ''ok'',
      p_subtasks = [\<lparr>s_title = ''add test'', s_agent = ''auto'', s_description = ''write it''\<rparr>],
      p_execBlocks = []\<rparr>"

text \<open>A model answer with a FILE block whose path names a directory, followed by a
  SUBTASK block.\<close>

definition directory_file_output :: string where
  "directory_file_output =
     ''===FILE==='' @ nl @ ''path: out/'' @ nl @ ''===CONTENT==='' @ nl @ ''x'' @ nl
       @ ''===END_FILE==='' @ nl @ one_subtask_output"



text \<open>A run of events, one per time unit from the given time on; \<open>None\<close> when an event
  cannot happen.\<close>

fun run_events :: "env \<Rightarrow> nat \<Rightarrow> event list \<Rightarrow> state \<Rightarrow> state option" where
  "run_events e now [] s = Some s"
| "run_events e now (ev # evs) s =
     (case step e now ev s of
        None \<Rightarrow> None
      | Some s' \<Rightarrow> run_events e (now + 1) evs s')"

text \<open>The state after one command has created six tasks while no agent was
  registered, and six agents have joined: six pending tasks, six idle agents.\<close>

definition six_pending :: state where
  "six_pending =
     the (run_events env0 0
            [Command (CreateTask ''fix bug'' None None
                        (Some [''a1'', ''a2'', ''a3'', ''a4'', ''a5'', ''a6''])),
             Command (AddAgent (cfg0 ''a1'')), Command (AddAgent (cfg0 ''a2'')),
             Command (AddAgent (cfg0 ''a3'')), Command (AddAgent (cfg0 ''a4'')),
             Command (AddAgent (cfg0 ''a5'')), Command (AddAgent (cfg0 ''a6''))]
            (start_state []))"

text \<open>The test of \<^verbatim>\<open>getCallableAgents\<close> on one agent.\<close>

definition callable :: "agent \<Rightarrow> bool" where
  "callable a = (a_status a = Idle \<and> \<not> is_bridge a \<and> a_status a \<noteq> Offline)"

text \<open>The number of executions that a step launched.\<close>

definition launched :: "state \<Rightarrow> state \<Rightarrow> nat" where
  "launched s s' = length (running s') - length (running s)"

text \<open>The ids of the pending tasks, in the order of the task list.\<close>

definition pending_ids :: "state \<Rightarrow> string list" where
  "pending_ids s = map t_id (filter (\<lambda>t. t_status t = Pending) (tasks s))"

subsection \<open>Blocks of a text\<close>

text \<open>
  A text splits into pieces and blocks of a pattern: each block is a match of the
  pattern that is not empty and starts at the first position, after the block before
  it, where the pattern matches; the last piece holds no match. The pieces are listed
  with the groups captured in each block.
\<close>

inductive split_blocks :: "rx \<Rightarrow> string \<Rightarrow> string list \<Rightarrow> string list list \<Rightarrow> bool"
  for r :: rx where
  last_piece:
    "(\<forall>k \<le> length s. rx_match r (drop k s) = None) \<Longrightarrow> split_blocks r s [s] []"
| block:
    "rx_match r (blk @ rest) = Some (caps, rest) \<Longrightarrow> blk \<noteq> [] \<Longrightarrow>
     (\<forall>k < length pre. rx_match r (drop k (pre @ blk @ rest)) = None) \<Longrightarrow>
     split_blocks r rest ps ms \<Longrightarrow>
     split_blocks r (pre @ blk @ rest) (pre # ps) (caps # ms)"

text \<open>A model answer with two FILE blocks and an EXEC block between them.\<close>

definition two_files_output :: string where
  "two_files_output =
     ''Here it is.'' @ nl
       @ ''===FILE==='' @ nl @ ''path: a.js'' @ nl @ ''===CONTENT==='' @ nl @ ''x = 1;'' @ nl
       @ ''===END_FILE==='' @ nl
       @ ''===EXEC==='' @ nl @ ''cwd: app'' @ nl @ ''cmd: npm i'' @ nl @ ''===END_EXEC==='' @ nl
       @ ''===FILE==='' @ nl @ ''path: b.js'' @ nl @ ''===CONTENT==='' @ nl @ ''y = 2;'' @ nl
       @ ''===END_FILE==='' @ nl @ ''Done.''"

section \<open>Properties of the reinforcement-learning engine\<close>

subsection \<open>Performance log\<close>

lemma Math_round_round: "Math_round x = round x"
  by (simp add: Math_round_def round_def)

lemma round_div_int:
  assumes "0 < b"
  shows "round (of_int a / (of_int b :: rat)) = (2 * a + b) div (2 * b)"
proof -
  have "of_int a / (of_int b :: rat) + 1 / 2 = of_int (2 * a + b) / of_int (2 * b)"
    using assms by (simp add: field_simps)
  then show ?thesis
    unfolding round_def by (simp only: floor_divide_of_int_eq)
qed

lemma Math_round_div:
  "0 < b \<Longrightarrow> Math_round (of_int a / of_nat b) = (2 * a + int b) div (2 * int b)"
  using round_div_int [of "int b" a] by (simp add: Math_round_def round_def)

lemma Math_round_int:
  "Math_round (of_int a) = a" "Math_round (numeral k) = numeral k"
  "Math_round 0 = 0" "Math_round 1 = 1"
proof -
  show a: "Math_round (of_int a) = a" for a
    using Math_round_div [of 1 a] by simp
  show "Math_round (numeral k) = numeral k" using a [of "numeral k"] by simp
  show "Math_round 0 = 0" using a [of 0] by simp
  show "Math_round 1 = 1" using a [of 1] by simp
qed


































subsection \<open>Overall score\<close>

lemma foldl_avg_sum:
  "foldl (\<lambda>s t. s + (case t of Rec l \<Rightarrow> if avg l = 0 then 50 else avg l | NoRecord \<Rightarrow> 50)) a ts
     = a + sum_list (map (\<lambda>t. case t of Rec l \<Rightarrow> if avg l = 0 then 50 else avg l | NoRecord \<Rightarrow> 50) ts)"
  by (induction ts arbitrary: a) simp_all

text \<open>When the object of the agent is not a record and no average is 0, the overall
  score is the one of the specification.\<close>

lemma getAgentOverallScore_nonzero:
  assumes "agent_object pl agentId = Some h" and "\<forall>c. h \<noteq> OnRecord c"
    and "list_all (\<lambda>(ty, l). avg l \<noteq> 0) (records_on pl h)"
  shows "getAgentOverallScore pl agentId = spec_overall pl agentId"
proof -
  have v: "values_of pl h = map (\<lambda>(ty, l). Rec l) (records_on pl h)"
    using assms(2) by (cases h) (simp_all add: values_of_def)
  have "map (\<lambda>t. case t of Rec l \<Rightarrow> if avg l = 0 then 50 else avg l | NoRecord \<Rightarrow> 50)
          (map (\<lambda>(ty, l). Rec l) al) = map (\<lambda>(ty, l). avg l) al"
    if "list_all (\<lambda>(ty, l). avg l \<noteq> 0) al" for al :: agent_log
    using that by (induction al) auto
  from this [OF assms(3)]
  have "sum_list (map (\<lambda>t. case t of Rec l \<Rightarrow> if avg l = 0 then 50 else avg l | NoRecord \<Rightarrow> 50)
          (map (\<lambda>(ty, l). Rec l) (records_on pl h)))
      = sum_list (map (\<lambda>(ty, l). avg l) (records_on pl h))" by (rule arg_cong)
  then show ?thesis
    using assms(1)
    by (simp add: getAgentOverallScore_def spec_overall_def Let_def foldl_avg_sum v
        Math_round_round del: map_map)
qed

text \<open>
  C9. The overall score is the rounded mean of the per-category averages and 50 for an
  agent without records, except that the code reads \<^verbatim>\<open>t.avg || 50\<close>: after one
  task scored 0 in one category, the only average is 0 and the mean of the averages
  is 0, but \<^verbatim>\<open>getAgentOverallScore\<close> returns 50.
\<close>

theorem getAgentOverallScore_zero_average:
  "getAgentOverallScore (recordPerformance [] ''agent-1'' [''general''] 0 ''TASK-001'' 7) ''agent-1'' = 50
   \<and> spec_overall (recordPerformance [] ''agent-1'' [''general''] 0 ''TASK-001'' 7) ''agent-1'' = 0"
  by (simp add: getAgentOverallScore_def spec_overall_def recordPerformance_def record_type_def
      agent_object_def find_record_def put_record_def records_on_def values_of_def
      Object_prototype_functions_def Let_def slice_last_def Math_round_div Math_round_int)

subsection \<open>scoreOutput\<close>

lemma tokenScore_bucket: "0 < t \<Longrightarrow> tokenScore t = spec_bucket t"
  by (simp add: tokenScore_def spec_bucket_def)

lemma exec_part:
  "(if length E > 0 \<and> R \<noteq> None
    then Math_round (of_nat (length (filter success (the R))) / of_nat (length E) * 15)
    else if length E = 0 then 10 else 0)
   = (if length E > 0 \<and> R \<noteq> None
      then round (15 * of_nat (length (filter success (the R))) / (of_nat (length E) :: rat))
      else if length E = 0 then 10 else (0::int))"
  by (simp add: Math_round_round mult.commute)

text \<open>
  C3 as stated fails: the code adds 5 for each of the three markers
  \<^verbatim>\<open>===FILE===\<close>, \<^verbatim>\<open>===CONTENT===\<close> and \<^verbatim>\<open>===END_FILE===\<close> found in the raw text,
  not 15 for their presence. On a raw text that holds the first marker only, with no
  file, no command and 100 tokens, the code scores 45; the reference formula gives 55
  when the markers count as present and 40 when they do not.
\<close>

theorem scoreOutput_markers_counterexample:
  "scoreOutput Completed \<lparr>m_output = ''===FILE==='', rawOutput = None, tokensUsed = 100\<rparr>
        [] [] None \<noteq> spec_score 15 0 0 None 100 Completed
   \<and> scoreOutput Completed \<lparr>m_output = ''===FILE==='', rawOutput = None, tokensUsed = 100\<rparr>
        [] [] None \<noteq> spec_score 0 0 0 None 100 Completed"
  by (simp add: scoreOutput_def spec_score_def spec_bucket_def tokenScore_def raw_text_def
      Let_def)

text \<open>
  C3, amended. For every completed task with a positive token count, the score is the
  reference formula with the marker bonus replaced by 5 points for each of the three
  markers present in the raw text: 20 + min(20, 5|F|) for files, the rounded share of
  successful commands or 10 without commands, the token bucket, 15 for a status other
  than failed, clamped to [0, 100].
\<close>

theorem scoreOutput_formula:
  assumes "0 < tokensUsed result"
  shows "scoreOutput S result F E R
           = spec_score (5 * marker_count (raw_text result)) (length F) (length E) R
               (tokensUsed result) S"
proof -
  have m: "(a + (if p then 5 else 0) + (if q then 5 else 0) + (if r then 5 else 0) :: int)
      = a + 5 * ((if p then 1 else 0) + (if q then 1 else 0) + (if r then 1 else 0))" for a p q r
    by simp
  have f: "int (length F) * 5 = 5 * int (length F)" by simp
  have c: "min 100 (max 0 x) = max 0 (min 100 x)" for x :: int
    by simp
  show ?thesis
    unfolding scoreOutput_def spec_score_def Let_def marker_count_def exec_part
      tokenScore_bucket [OF assms] m f c ..
qed

theorem scoreOutput_formula_witness:
  "0 < tokensUsed \<lparr>m_output = ''===FILE==='', rawOutput = None, tokensUsed = 100\<rparr>
   \<and> scoreOutput Completed \<lparr>m_output = ''===FILE==='', rawOutput = None, tokensUsed = 100\<rparr>
        [] [] None = 45"
proof -
  let ?r = "\<lparr>m_output = ''===FILE==='', rawOutput = None, tokensUsed = 100\<rparr>"
  have h: "0 < tokensUsed ?r" by simp
  have "spec_score (5 * marker_count (raw_text ?r)) (length ([] :: file_intent list))
          (length ([] :: command_intent list)) None (tokensUsed ?r) Completed = 45"
    by (simp add: spec_score_def spec_bucket_def marker_count_def raw_text_def Let_def)
  with scoreOutput_formula [OF h, of Completed "[]" "[]" None]
  have "scoreOutput Completed ?r [] [] None = 45" by (simp only:)
  with h show ?thesis by blast
qed

section \<open>Properties of the output parser\<close>

lemma rx_exec_no_header:
  assumes "h \<noteq> []" and "\<not> str_includes s h"
  shows "rx_exec (Lit h # r) s = None"
  using assms(2)
proof (induction s)
  case Nil
  then show ?case using assms(1) by simp
next
  case (Cons x xs)
  then show ?case by simp
qed

lemma rx_match_Lit_length:
  assumes "rx_match (Lit h # r) s = Some (caps, rest)" and "h \<noteq> []"
  shows "length rest < length s"
proof -
  from assms(1) have p: "prefix h s" and m: "rx_match r (drop (length h) s) = Some (caps, rest)"
    by (auto split: if_splits)
  from m have "length rest \<le> length s - length h"
    by (auto dest: rx_match_length)
  moreover from p assms(2) have "0 < length h" "length h \<le> length s"
    by (auto simp: prefix_def)
  ultimately show ?thesis by linarith
qed

lemma rx_exec_Lit_length:
  "rx_exec (Lit h # r) s = Some (pre, caps, rest) \<Longrightarrow> h \<noteq> [] \<Longrightarrow> length rest < length s"
proof (induction s arbitrary: pre)
  case Nil
  then show ?case by (auto split: option.splits if_splits)
next
  case (Cons x xs)
  show ?case
  proof (cases "rx_match (Lit h # r) (x # xs)")
    case None
    with Cons.prems obtain pre' where "rx_exec (Lit h # r) xs = Some (pre', caps, rest)"
      by (auto split: option.splits)
    with Cons.IH Cons.prems(2) have "length rest < length xs" by blast
    then show ?thesis by simp
  next
    case (Some a)
    with Cons.prems have "rx_match (Lit h # r) (x # xs) = Some (caps, rest)"
      by (auto split: option.splits)
    then show ?thesis using Cons.prems(2) by (rule rx_match_Lit_length)
  qed
qed

lemma exec_loop_total:
  assumes "h \<noteq> []"
  shows "\<exists>ms. exec_loop (Lit h # r) s = Some ms"
proof (induction s rule: length_induct)
  case (1 s)
  show ?case
  proof (cases "rx_exec (Lit h # r) s")
    case None
    then show ?thesis by simp
  next
    case (Some m)
    obtain pre caps rest where m: "m = (pre, caps, rest)" by (cases m)
    with Some assms have l: "length rest < length s" by (auto dest: rx_exec_Lit_length)
    with 1 obtain ms where "exec_loop (Lit h # r) rest = Some ms" by blast
    with Some m l show ?thesis by simp
  qed
qed

lemma no_header_loop:
  "rx_exec r s = None \<Longrightarrow> exec_loop r s = Some []"
  by simp

lemma no_header_replace:
  "rx_exec r s = None \<Longrightarrow> replace_all r s = s"
  by simp

lemma FILE_RX_header:
  "FILE_RX = Lit ''===FILE==='' # tl FILE_RX"
  by (simp add: FILE_RX_def)


subsection \<open>Matches and blocks\<close>

text \<open>What a match leaves is the end of the text it was given.\<close>

lemma rx_match_suffix:
  "rx_match r s = Some (caps, rest) \<Longrightarrow> suffix rest s"
proof (induction r s arbitrary: caps rest rule: rx_match.induct)
  case (1 s)
  then show ?case by simp
next
  case (2 l r s)
  then have "suffix rest (drop (length l) s)" by (auto split: if_splits)
  then show ?case using suffix_drop suffix_order.trans by blast
next
  case (3 c r)
  then show ?case by simp
next
  case (4 c r x xs)
  then show ?case by (auto split: if_splits option.splits intro: suffix_ConsI)
next
  case (5 c r)
  then show ?case by simp
next
  case (6 c r x xs)
  then show ?case by (auto split: if_splits dest!: cap_cons_Some intro: suffix_ConsI)
next
  case (7 c r)
  then show ?case by (auto dest!: cap_open_Some)
next
  case (8 c r x xs)
  then show ?case
    by (auto split: if_splits option.splits dest!: cap_cons_Some cap_open_Some intro: suffix_ConsI)
next
  case (9 c r)
  then show ?case by (auto dest!: cap_open_Some)
next
  case (10 c r x xs)
  then show ?case
    by (auto split: if_splits option.splits dest!: cap_cons_Some cap_open_Some intro: suffix_ConsI)
qed

text \<open>\<^verbatim>\<open>regex.exec\<close> finds a match exactly when the text is a piece without a match
  start, a block that the pattern matches and a rest.\<close>

lemma rx_exec_None_iff:
  "rx_exec r s = None \<longleftrightarrow> (\<forall>k \<le> length s. rx_match r (drop k s) = None)"
proof (induction s)
  case Nil
  then show ?case by (auto split: option.splits)
next
  case (Cons x xs)
  have "(\<forall>k \<le> length (x # xs). rx_match r (drop k (x # xs)) = None)
      \<longleftrightarrow> rx_match r (x # xs) = None \<and> (\<forall>k \<le> length xs. rx_match r (drop k xs) = None)"
  proof
    assume a: "\<forall>k \<le> length (x # xs). rx_match r (drop k (x # xs)) = None"
    from a [rule_format, of 0] have "rx_match r (x # xs) = None" by simp
    moreover have "rx_match r (drop k xs) = None" if "k \<le> length xs" for k
      using a [rule_format, of "Suc k"] that by simp
    ultimately show "rx_match r (x # xs) = None \<and> (\<forall>k \<le> length xs. rx_match r (drop k xs) = None)"
      by blast
  next
    assume a: "rx_match r (x # xs) = None \<and> (\<forall>k \<le> length xs. rx_match r (drop k xs) = None)"
    show "\<forall>k \<le> length (x # xs). rx_match r (drop k (x # xs)) = None"
    proof (intro allI impI)
      fix k assume "k \<le> length (x # xs)"
      then show "rx_match r (drop k (x # xs)) = None"
        using a by (cases k) auto
    qed
  qed
  then show ?case using Cons by (auto split: option.splits)
qed

lemma rx_exec_at:
  assumes "\<forall>k < length pre. rx_match r (drop k (pre @ s)) = None"
    and "rx_match r s = Some (caps, rest)"
  shows "rx_exec r (pre @ s) = Some (pre, caps, rest)"
  using assms(1)
proof (induction pre)
  case Nil
  then show ?case using assms(2) by (cases s) simp_all
next
  case (Cons x pre)
  from Cons.prems [rule_format, of 0] have m: "rx_match r (x # pre @ s) = None" by simp
  have "rx_match r (drop k (pre @ s)) = None" if "k < length pre" for k
    using Cons.prems [rule_format, of "Suc k"] that by simp
  then have "rx_exec r (pre @ s) = Some (pre, caps, rest)" using Cons.IH by blast
  then show ?case using m by simp
qed

lemma rx_exec_Some:
  assumes "rx_exec r s = Some (pre, caps, rest)"
  shows "\<exists>blk. s = pre @ blk @ rest \<and> rx_match r (blk @ rest) = Some (caps, rest)
           \<and> (\<forall>k < length pre. rx_match r (drop k s) = None)"
  using assms
proof (induction s arbitrary: pre)
  case Nil
  then have m: "rx_match r [] = Some (caps, rest)" and p: "pre = []"
    by (auto split: option.splits)
  from m have "rest = []" by (auto dest: rx_match_suffix)
  with m p show ?case by simp
next
  case (Cons x xs)
  show ?case
  proof (cases "rx_match r (x # xs)")
    case (Some res)
    with Cons.prems have m: "rx_match r (x # xs) = Some (caps, rest)" and p: "pre = []"
      by (auto split: option.splits)
    from m obtain blk where "x # xs = blk @ rest"
      by (auto dest!: rx_match_suffix simp: suffix_def)
    with m p show ?thesis by auto
  next
    case None
    with Cons.prems obtain pre' where p: "pre = x # pre'"
      and e: "rx_exec r xs = Some (pre', caps, rest)"
      by (auto split: option.splits)
    from Cons.IH [OF e] obtain blk where b: "xs = pre' @ blk @ rest"
      "rx_match r (blk @ rest) = Some (caps, rest)"
      "\<forall>k < length pre'. rx_match r (drop k xs) = None"
      by blast
    have "rx_match r (drop k (x # xs)) = None" if "k < length pre" for k
    proof (cases k)
      case 0
      then show ?thesis using None by simp
    next
      case (Suc j)
      then show ?thesis using that p b(3) by simp
    qed
    with b p show ?thesis by auto
  qed
qed

text \<open>For a split of the text, the loop of \<^verbatim>\<open>exec\<close> returns the groups of the blocks
  and the replacement leaves the pieces.\<close>

lemma split_blocks_results:
  "split_blocks r s ps ms \<Longrightarrow> exec_loop r s = Some ms \<and> replace_all r s = concat ps"
proof (induction rule: split_blocks.induct)
  case (last_piece s)
  then have "rx_exec r s = None" by (simp add: rx_exec_None_iff)
  then show ?case by simp
next
  case (block blk rest caps pre ps ms)
  from block(3) block(1) have "rx_exec r (pre @ blk @ rest) = Some (pre, caps, rest)"
    by (rule rx_exec_at)
  moreover have "length rest < length (pre @ blk @ rest)" using block(2) by (cases blk) simp_all
  ultimately show ?case using block.IH
    by (simp del: exec_loop.simps replace_all.simps
             add: exec_loop.simps [of r "pre @ blk @ rest"] replace_all.simps [of r "pre @ blk @ rest"])
qed

text \<open>A pattern that starts with a literal header has a split of every text.\<close>

lemma split_blocks_total:
  assumes "h \<noteq> []"
  shows "\<exists>ps ms. split_blocks (Lit h # r) s ps ms"
proof (induction s rule: length_induct)
  case (1 s)
  show ?case
  proof (cases "rx_exec (Lit h # r) s")
    case None
    then have "split_blocks (Lit h # r) s [s] []"
      by (intro split_blocks.last_piece) (simp add: rx_exec_None_iff)
    then show ?thesis by blast
  next
    case (Some m)
    obtain pre caps rest where m: "m = (pre, caps, rest)" by (cases m)
    with Some have e: "rx_exec (Lit h # r) s = Some (pre, caps, rest)" by simp
    from rx_exec_Some [OF e] obtain blk where b: "s = pre @ blk @ rest"
      "rx_match (Lit h # r) (blk @ rest) = Some (caps, rest)"
      "\<forall>k < length pre. rx_match (Lit h # r) (drop k s) = None"
      by blast
    from e assms have l: "length rest < length s" by (rule rx_exec_Lit_length)
    from b(2) assms have "length rest < length (blk @ rest)" by (rule rx_match_Lit_length)
    then have ne: "blk \<noteq> []" by auto
    from 1 l obtain ps ms where "split_blocks (Lit h # r) rest ps ms" by blast
    with b(2) ne b(3) have "split_blocks (Lit h # r) (pre @ blk @ rest) (pre # ps) (caps # ms)"
      unfolding b(1) by (intro split_blocks.block)
    then show ?thesis unfolding b(1) [symmetric] by blast
  qed
qed

text \<open>
  C5 as stated fails: the explanation is computed by \<^verbatim>\<open>parseFiles\<close> alone, which
  removes FILE blocks only. A text that holds one EXEC block is returned whole, the
  block included, although \<^verbatim>\<open>parseExecBlocks\<close> recognizes the block; with the blocks
  of the three kinds removed the residue would be \<^verbatim>\<open>Done.\<close>
\<close>

theorem parseFiles_keeps_exec_counterexample:
  "map_option explanation
     (parseFiles (''Done.'' @ nl @ ''===EXEC==='' @ nl @ ''cwd: app'' @ nl @ ''cmd: npm i'' @ nl
                    @ ''===END_EXEC===''))
     = Some (''Done.'' @ nl @ ''===EXEC==='' @ nl @ ''cwd: app'' @ nl @ ''cmd: npm i'' @ nl
               @ ''===END_EXEC==='')
   \<and> parseExecBlocks (''Done.'' @ nl @ ''===EXEC==='' @ nl @ ''cwd: app'' @ nl @ ''cmd: npm i'' @ nl
                          @ ''===END_EXEC==='')
     = Some [\<lparr>cwd = ''app'', cmd = ''npm i''\<rparr>]
   \<and> residual [FILE_RX, EXEC_RX, SUBTASK_RX]
        (''Done.'' @ nl @ ''===EXEC==='' @ nl @ ''cwd: app'' @ nl @ ''cmd: npm i'' @ nl
           @ ''===END_EXEC==='')
     = ''Done.''"
  by code_simp

text \<open>
  C5, amended. Every raw model text (of characters below 256) splits into pieces and
  FILE blocks, each block a match of the FILE pattern that starts at the first
  position, after the block before it, where the pattern matches. For every such
  split the parser returns one file for each block, in order, with the path and the
  content captured in it, and the residual explanation is the pieces put together,
  that is the input with exactly these blocks removed, trimmed, with every run of
  three or more line feeds collapsed to two, and trimmed again. EXEC and SUBTASK
  blocks are not removed: a text without the FILE header is returned whole (trimmed
  and collapsed), with no file.
\<close>

theorem parseFiles_explanation:
  "(\<exists>ps ms. split_blocks FILE_RX txt ps ms)
   \<and> (\<forall>ps ms. split_blocks FILE_RX txt ps ms \<longrightarrow>
         parseFiles txt
           = Some \<lparr>files = map (\<lambda>m. \<lparr>path = trim (group m 1), content = trimEnd (group m 2)\<rparr>) ms,
                    explanation = trim (collapse_newlines (trim (concat ps)))\<rparr>)
   \<and> (\<not> str_includes txt ''===FILE==='' \<longrightarrow>
        parseFiles txt = Some \<lparr>files = [], explanation = trim (collapse_newlines (trim txt))\<rparr>)"
proof (intro conjI impI allI)
  show "\<exists>ps ms. split_blocks FILE_RX txt ps ms"
    using split_blocks_total [of "''===FILE===''" "tl FILE_RX" "txt"] FILE_RX_header by auto
next
  fix ps ms
  assume "split_blocks FILE_RX txt ps ms"
  then have "exec_loop FILE_RX txt = Some ms \<and> replace_all FILE_RX txt = concat ps"
    by (rule split_blocks_results)
  then show "parseFiles txt
           = Some \<lparr>files = map (\<lambda>m. \<lparr>path = trim (group m 1), content = trimEnd (group m 2)\<rparr>) ms,
                    explanation = trim (collapse_newlines (trim (concat ps)))\<rparr>"
    by (simp add: parseFiles_def)
next
  assume "\<not> str_includes txt ''===FILE===''"
  then have "rx_exec FILE_RX txt = None"
    using rx_exec_no_header [of "''===FILE===''" "txt" "tl FILE_RX"] FILE_RX_header by auto
  then show "parseFiles txt = Some \<lparr>files = [], explanation = trim (collapse_newlines (trim txt))\<rparr>"
    by (simp add: parseFiles_def)
qed

theorem parseFiles_explanation_witness:
  "(\<exists>ps ms. split_blocks FILE_RX two_files_output ps ms
      \<and> map (\<lambda>m. \<lparr>path = trim (group m 1), content = trimEnd (group m 2)\<rparr>) ms
          = [\<lparr>path = ''a.js'', content = ''x = 1;''\<rparr>, \<lparr>path = ''b.js'', content = ''y = 2;''\<rparr>]
      \<and> trim (collapse_newlines (trim (concat ps)))
          = ''Here it is.'' @ nl @ nl @ ''===EXEC==='' @ nl @ ''cwd: app'' @ nl @ ''cmd: npm i''
              @ nl @ ''===END_EXEC==='' @ nl @ nl @ ''Done.'')
   \<and> \<not> str_includes (''ok'' @ nl @ ''===EXEC==='' @ nl @ ''cwd: a'' @ nl @ ''cmd: ls'' @ nl
                       @ ''===END_EXEC==='') ''===FILE===''
   \<and> parseFiles (''ok'' @ nl @ ''===EXEC==='' @ nl @ ''cwd: a'' @ nl @ ''cmd: ls'' @ nl
                   @ ''===END_EXEC==='')
     = Some \<lparr>files = [],
              explanation = trim (collapse_newlines (trim
                (''ok'' @ nl @ ''===EXEC==='' @ nl @ ''cwd: a'' @ nl @ ''cmd: ls'' @ nl
                   @ ''===END_EXEC===''))) \<rparr>"
proof -
  let ?t = "''ok'' @ nl @ ''===EXEC==='' @ nl @ ''cwd: a'' @ nl @ ''cmd: ls'' @ nl
              @ ''===END_EXEC==='' "
  have ev: "parseFiles two_files_output
      = Some \<lparr>files = [\<lparr>path = ''a.js'', content = ''x = 1;''\<rparr>, \<lparr>path = ''b.js'', content = ''y = 2;''\<rparr>],
               explanation = ''Here it is.'' @ nl @ nl @ ''===EXEC==='' @ nl @ ''cwd: app'' @ nl
                  @ ''cmd: npm i'' @ nl @ ''===END_EXEC==='' @ nl @ nl @ ''Done.''\<rparr>"
    by code_simp
  from parseFiles_explanation [of two_files_output]
  obtain ps ms where sp: "split_blocks FILE_RX two_files_output ps ms"
    and pf: "parseFiles two_files_output
           = Some \<lparr>files = map (\<lambda>m. \<lparr>path = trim (group m 1), content = trimEnd (group m 2)\<rparr>) ms,
                    explanation = trim (collapse_newlines (trim (concat ps)))\<rparr>"
    by blast
  from pf ev have eqs:
    "map (\<lambda>m. \<lparr>path = trim (group m 1), content = trimEnd (group m 2)\<rparr>) ms
          = [\<lparr>path = ''a.js'', content = ''x = 1;''\<rparr>, \<lparr>path = ''b.js'', content = ''y = 2;''\<rparr>]"
    "trim (collapse_newlines (trim (concat ps)))
          = ''Here it is.'' @ nl @ nl @ ''===EXEC==='' @ nl @ ''cwd: app'' @ nl @ ''cmd: npm i''
              @ nl @ ''===END_EXEC==='' @ nl @ nl @ ''Done.''"
    by simp_all
  have a: "\<exists>ps ms. split_blocks FILE_RX two_files_output ps ms
      \<and> map (\<lambda>m. \<lparr>path = trim (group m 1), content = trimEnd (group m 2)\<rparr>) ms
          = [\<lparr>path = ''a.js'', content = ''x = 1;''\<rparr>, \<lparr>path = ''b.js'', content = ''y = 2;''\<rparr>]
      \<and> trim (collapse_newlines (trim (concat ps)))
          = ''Here it is.'' @ nl @ nl @ ''===EXEC==='' @ nl @ ''cwd: app'' @ nl @ ''cmd: npm i''
              @ nl @ ''===END_EXEC==='' @ nl @ nl @ ''Done.''"
    by (intro exI [of _ ps] exI [of _ ms] conjI) (rule sp eqs)+
  have h: "\<not> str_includes ?t ''===FILE===''" by code_simp
  from parseFiles_explanation [of ?t] h
  have "parseFiles ?t = Some \<lparr>files = [], explanation = trim (collapse_newlines (trim ?t))\<rparr>"
    by blast
  with a h show ?thesis by (intro conjI)
qed


section \<open>Properties of the workspace executor\<close>

text \<open>Every command runs in a directory whose path starts with the root as a
  string.\<close>

lemma runExecBlocks_prefix:
  "list_all (\<lambda>d. prefix (PROJECT_ROOT e) (fst d)) (commands w) \<Longrightarrow>
   list_all (\<lambda>d. prefix (PROJECT_ROOT e) (fst d)) (commands (snd (runExecBlocks e bs w)))"
proof (induction bs arbitrary: w)
  case Nil
  then show ?case by simp
next
  case (Cons b bs)
  show ?case
  proof (cases "prefix (PROJECT_ROOT e) (path_join (PROJECT_ROOT e) (cwd b))")
    case False
    then show ?thesis using Cons by (simp add: Let_def)
  next
    case True
    show ?thesis
    proof (cases "fs_mkdir e w (path_join (PROJECT_ROOT e) (cwd b))")
      case (Some message)
      then show ?thesis using True Cons.prems by (simp add: Let_def)
    next
      case None
      let ?w1 = "w\<lparr>commands := commands w @ [(path_join (PROJECT_ROOT e) (cwd b), cmd b)]\<rparr>"
      have "list_all (\<lambda>d. prefix (PROJECT_ROOT e) (fst d)) (commands ?w1)"
        using Cons.prems True by simp
      then have "list_all (\<lambda>d. prefix (PROJECT_ROOT e) (fst d)) (commands (snd (runExecBlocks e bs ?w1)))"
        by (rule Cons.IH)
      then show ?thesis using True None by (auto simp: Let_def split: prod.splits)
    qed
  qed
qed

text \<open>A write that fails stops \<^verbatim>\<open>writeFiles\<close>: the files after it are not written.\<close>

lemma writeFiles_throws:
  "fs_write e w (path_join (PROJECT_ROOT e) (path file)) (content file) = Some message \<Longrightarrow>
   writeFiles e (file # fs) w = (Inl message, w)"
  by (simp add: Let_def)

lemma join_outside:
  "path_join ''/srv/agentos/workspace'' ''../outside.txt'' = ''/srv/agentos/outside.txt''"
  "path_join ''/srv/agentos/workspace'' ''../workspace-evil'' = ''/srv/agentos/workspace-evil''"
  by code_simp+

text \<open>
  C2. \<^verbatim>\<open>writeFiles\<close> joins the root and the path and writes, without any test: the
  file intent \<^verbatim>\<open>../outside.txt\<close> is written next to the workspace, not inside it.
  \<^verbatim>\<open>runExecBlocks\<close> tests that the joined directory starts with the root as a string:
  the directory \<^verbatim>\<open>../workspace-evil\<close> passes, and the command runs outside the root.
\<close>

theorem path_escapes_root:
  "disk (snd (writeFiles env0 [\<lparr>path = ''../outside.txt'', content = ''x''\<rparr>]
                \<lparr>disk = [], commands = []\<rparr>))
     = [(''/srv/agentos/outside.txt'', ''x'')]
   \<and> \<not> inside (PROJECT_ROOT env0) ''/srv/agentos/outside.txt''
   \<and> commands (snd (runExecBlocks env0 [\<lparr>cwd = ''../workspace-evil'', cmd = ''ls''\<rparr>]
                       \<lparr>disk = [], commands = []\<rparr>))
     = [(''/srv/agentos/workspace-evil'', ''ls'')]
   \<and> \<not> inside (PROJECT_ROOT env0) ''/srv/agentos/workspace-evil''"
  by (simp add: env0_def join_outside inside_def Let_def)

section \<open>Properties of the task manager and the orchestrator\<close>

subsection \<open>Agent selection\<close>

lemma pick_roll_mem: "pick_roll roll cs = Some i \<Longrightarrow> i \<in> fst ` set cs"
  by (induction roll cs rule: pick_roll.induct) (auto simp: Let_def split: if_splits)

lemma weighted_pick_mem:
  assumes "available \<noteq> []"
  shows "weighted_pick r s available ttl d \<in> set available"
proof -
  define scored where "scored = map (\<lambda>i. (i, finalScore (performanceLog s) (a_id (agents s ! i))
                                          (classifyTask ttl d))) available"
  define topN where "topN = take (min 3 (length (sort_key (\<lambda>(i, sc). - sc) scored)))
                              (sort_key (\<lambda>(i, sc). - sc) scored)"
  have "set topN \<subseteq> set scored"
    unfolding topN_def using set_take_subset [of _ "sort_key (\<lambda>(i, sc). - sc) scored"] by auto
  moreover have "fst ` set scored = set available"
    unfolding scored_def by force
  ultimately have sub: "fst ` set topN \<subseteq> set available" by blast
  define roll where "roll = r * foldl (\<lambda>w (i, sc). w + max 1 sc) 0 topN"
  have eq: "weighted_pick r s available ttl d =
      (case pick_roll roll topN of
         Some i \<Rightarrow> i
       | None \<Rightarrow> (case topN of (i, sc) # rest \<Rightarrow> i | [] \<Rightarrow> hd available))"
    unfolding weighted_pick_def Let_def roll_def topN_def scored_def ..
  show ?thesis
  proof (cases "pick_roll roll topN")
    case (Some i)
    then show ?thesis using sub eq by (auto dest: pick_roll_mem)
  next
    case None
    show ?thesis
    proof (cases topN)
      case Nil
      then show ?thesis using None eq assms by simp
    next
      case (Cons x xs)
      then have "fst x \<in> set available" using sub by auto
      then show ?thesis using None eq Cons by (simp add: case_prod_unfold)
    qed
  qed
qed
lemma pickAgent_cases:
  "pickAgent e s p ttl d = (None, s) \<and> getCallableAgents s = []
   \<or> (\<exists>i. i \<in> set (getCallableAgents s)
         \<and> (pickAgent e s p ttl d = (Some i, s)
             \<or> pickAgent e s p ttl d = (Some i, s\<lparr>randomCount := randomCount s + 1\<rparr>)))"
proof (cases "getCallableAgents s = []")
  case True
  then show ?thesis by (simp add: pickAgent_def)
next
  case False
  show ?thesis
  proof (cases "if p \<noteq> [] \<and> p \<noteq> ''auto''
                  then find (\<lambda>i. a_id (agents s ! i) = p) (getCallableAgents s) else None")
    case None
    then have "pickAgent e s p ttl d = (Some (weighted_pick (random e (randomCount s)) s (getCallableAgents s) ttl d),
                 s\<lparr>randomCount := randomCount s + 1\<rparr>)"
      using False unfolding pickAgent_def Let_def by simp
    then show ?thesis using weighted_pick_mem [OF False] by blast
  next
    case (Some i)
    then have "find (\<lambda>i. a_id (agents s ! i) = p) (getCallableAgents s) = Some i"
      by (simp split: if_splits)
    then have "i \<in> set (getCallableAgents s)"
      by (auto simp: find_Some_iff)
    moreover have "pickAgent e s p ttl d = (Some i, s)"
      using False Some unfolding pickAgent_def Let_def by simp
    ultimately show ?thesis by blast
  qed
qed

lemma update_agent_tasks [simp]:
  "tasks (update_agent i f s) = tasks s" "detached (update_agent i f s) = detached s"
  by (simp_all add: update_agent_def)

lemma dispatch_one_cases:
  "(dispatch_one e now s tid = s
    \<or> (\<exists>i s1. i \<in> set (getCallableAgents s)
          \<and> (s1 = s \<or> s1 = s\<lparr>randomCount := randomCount s + 1\<rparr>)
          \<and> dispatch_one e now s tid = launch now tid i s1))"
proof (cases "find_task s tid")
  case None
  then show ?thesis by (simp add: dispatch_one_def)
next
  case (Some t)
  from pickAgent_cases [of e s "preferredAgentId t" "title t" "description t"]
  show ?thesis
  proof (elim disjE conjE exE)
    assume "pickAgent e s (preferredAgentId t) (title t) (description t) = (None, s)"
    then show ?thesis using Some by (simp add: dispatch_one_def)
  next
    fix i
    assume "i \<in> set (getCallableAgents s)"
      and "pickAgent e s (preferredAgentId t) (title t) (description t) = (Some i, s)"
    then show ?thesis using Some by (auto simp: dispatch_one_def)
  next
    fix i
    assume "i \<in> set (getCallableAgents s)"
      and "pickAgent e s (preferredAgentId t) (title t) (description t)
             = (Some i, s\<lparr>randomCount := randomCount s + 1\<rparr>)"
    then show ?thesis using Some by (auto simp: dispatch_one_def)
  qed
qed

subsection \<open>How the operations change the task objects\<close>

lemma task_inv_update_task:
  assumes "task_inv Q s"
    and "\<And>t. Q (priority t) (depth t) \<Longrightarrow> Q (priority (f t)) (depth (f t))"
  shows "task_inv Q (update_task tid f s)"
  using assms by (auto simp: task_inv_def update_task_def list_all_iff)

lemma task_inv_same:
  "tasks s' = tasks s \<Longrightarrow> detached s' = detached s \<Longrightarrow> task_inv Q s' = task_inv Q s"
  by (simp add: task_inv_def)

lemma task_inv_launch:
  assumes "task_inv Q s"
  shows "task_inv Q (launch now tid i s)"
proof -
  let ?s1 = "update_agent i (\<lambda>a. a\<lparr>a_status := Working, currentTaskId := Some tid\<rparr>) s"
  let ?s2 = "update_task tid (\<lambda>t. t\<lparr>t_status := Active, assignedAgentId := Some (a_id (agents s ! i)),
                        started := Some now\<rparr>) ?s1"
  have "task_inv Q ?s1" using assms by (simp add: task_inv_def)
  then have "task_inv Q ?s2" by (rule task_inv_update_task) simp
  then have "task_inv Q (?s2\<lparr>running := running ?s2 @ [(tid, i)]\<rparr>)"
    by (simp add: task_inv_def)
  then show ?thesis by (simp add: launch_def Let_def)
qed

lemma task_inv_dispatch_one:
  assumes "task_inv Q s"
  shows "task_inv Q (dispatch_one e now s tid)"
proof -
  consider (same) "dispatch_one e now s tid = s"
    | (launched) i s1 where "s1 = s \<or> s1 = s\<lparr>randomCount := randomCount s + 1\<rparr>"
        "dispatch_one e now s tid = launch now tid i s1"
    using dispatch_one_cases [of e now s tid] by blast
  then show ?thesis
  proof cases
    case same
    then show ?thesis using assms by simp
  next
    case launched
    from launched(1) assms have "task_inv Q s1" by (auto simp: task_inv_def)
    then show ?thesis unfolding launched(2) by (rule task_inv_launch)
  qed
qed

lemma task_inv_foldl_dispatch:
  "task_inv Q s \<Longrightarrow> task_inv Q (foldl (dispatch_one e now) s tids)"
  by (induction tids arbitrary: s) (simp_all add: task_inv_dispatch_one)

lemma task_inv_runDispatch:
  "task_inv Q s \<Longrightarrow> task_inv Q (runDispatch e now s)"
  by (simp add: runDispatch_def Let_def task_inv_foldl_dispatch)

lemma task_inv_createTask:
  assumes "task_inv Q s" and "Q PMedium 0"
  shows "task_inv Q (snd (createTask e now s ttl d p))"
proof -
  have "task_inv Q (s\<lparr>taskCounter := taskCounter s + 1, tasks := tasks s @ [t]\<rparr>)"
    if "priority t = PMedium" "depth t = 0" for t
    using assms that by (simp add: task_inv_def)
  then show ?thesis
    by (simp add: createTask_def Let_def task_inv_runDispatch)
qed

lemma task_inv_spawn_subtasks:
  assumes "task_inv Q s" and "Q PMedium 0" and "\<And>p d. Q p d \<Longrightarrow> Q p (pdepth + 1)"
  shows "task_inv Q (spawn_subtasks e now pid pdepth aid s subs)"
  using assms(1)
proof (induction subs arbitrary: s)
  case Nil
  then show ?case by simp
next
  case (Cons sub subs)
  obtain cid s1 where c: "createTask e now s (s_title sub) (s_description sub)
                        (Some (if s_agent sub = ''auto'' then ''auto'' else s_agent sub)) = (cid, s1)"
    by (cases "createTask e now s (s_title sub) (s_description sub)
                        (Some (if s_agent sub = ''auto'' then ''auto'' else s_agent sub))")
  have "task_inv Q s1"
    using task_inv_createTask [OF Cons.prems assms(2), of e now "s_title sub" "s_description sub"
        "Some (if s_agent sub = ''auto'' then ''auto'' else s_agent sub)"] c by simp
  then have "task_inv Q (update_task cid
                 (\<lambda>c. c\<lparr>parentTaskId := Some pid, depth := pdepth + 1,
                        createdBy := ''agent:'' @ aid\<rparr>) s1)"
    by (rule task_inv_update_task) (use assms(3) in auto)
  then show ?case using c Cons.IH by simp
qed

lemma task_inv_cleanupTasks:
  "task_inv Q s \<Longrightarrow> task_inv Q (cleanupTasks s)"
  by (auto simp: cleanupTasks_def Let_def task_inv_def list_all_iff)

lemma task_inv_update_agent:
  "task_inv Q s \<Longrightarrow> task_inv Q (update_agent i f s)"
  by (simp add: task_inv_def)

lemma task_inv_task_finally:
  "task_inv Q s \<Longrightarrow> task_inv Q (task_finally ai s)"
  unfolding task_finally_def
  by (intro task_inv_cleanupTasks task_inv_update_agent)

lemma task_inv_rejectTask:
  "task_inv Q s \<Longrightarrow> task_inv Q (rejectTask now tid s)"
  by (auto simp: rejectTask_def split: option.splits intro: task_inv_update_task)

lemma task_inv_recharge:
  "task_inv Q s \<Longrightarrow> task_inv Q (recharge now s)"
  by (simp add: recharge_def task_inv_def)

text \<open>The \<^verbatim>\<open>try\<close> block either runs to its end, and then changes the task object and
  may spawn subtasks, or stops at a throw before the subtask loop.\<close>

lemma task_succeeded_shape:
  assumes "held_task s tid = Some t"
  shows "\<exists>f s3. tasks s3 = tasks s \<and> detached s3 = detached s
           \<and> taskCounter s3 = taskCounter s
           \<and> (performanceLog s3 = performanceLog s
                \<or> (\<exists>aid tys sc. performanceLog s3
                       = recordPerformance (performanceLog s) aid tys sc tid now))
           \<and> (\<forall>t. priority (f t) = priority t \<and> depth (f t) = depth t \<and> t_id (f t) = t_id t)
           \<and> (task_succeeded e now tid ai r p s =
                (None,
                 if length (p_subtasks p) > 0 \<and> depth t < 3
                 then spawn_subtasks e now tid (depth t) (a_id (agents s ! ai))
                        (update_task tid f s3) (p_subtasks p)
                 else update_task tid f s3)
              \<or> (\<exists>message. task_succeeded e now tid ai r p s = (Some message, update_task tid f s3)))"
proof -
  define tokens where "tokens = tokensUsed r"
  define s2 where "s2 = (update_agent ai
                      (\<lambda>a. a\<lparr>energy := energy a - min 5 ((tokens + 999) div 1000),
                             totalTokensUsed := totalTokensUsed a + tokens,
                             tasksCompleted := tasksCompleted a + 1,
                             xp := xp a + (20 + min 30 (tokens div 100)),
                             level := (xp a + (20 + min 30 (tokens div 100))) div 300 + 1\<rparr>) s)
             \<lparr>totalGlobalTokens := totalGlobalTokens s + tokens\<rparr>"
  define res where "res = \<lparr>res_success = True,
                      res_output = (if p_explanation p = [] then m_output r else p_explanation p),
                      res_rawOutput = Some (m_output r), res_tokensUsed = tokens,
                      res_files = map path (p_files p), fileContents = Some (p_files p), execBlocks = None,
                      execResults = None, perfScore = None, res_taskTypes = None\<rparr>"
  have g: "totalGlobalTokens (update_agent i g s) = totalGlobalTokens s" for i g
    by (simp add: update_agent_def)
  have s2: "tasks s2 = tasks s" "detached s2 = detached s" "taskCounter s2 = taskCounter s"
    "a_id (agents s2 ! ai) = a_id (agents s ! ai)" "performanceLog s2 = performanceLog s"
    by (simp_all add: s2_def update_agent_def nth_list_update)
  obtain x w1 where ap: "apply_output e now t res (p_files p) (p_execBlocks p) (world s2) = (x, w1)"
    by (cases "apply_output e now t res (p_files p) (p_execBlocks p) (world s2)")
  show ?thesis
  proof (cases x)
    case (Inl message)
    define f where "f = (\<lambda>t' :: task. t'\<lparr>t_result := Some res\<rparr>)"
    have "task_succeeded e now tid ai r p s = (Some message, update_task tid f (s2\<lparr>world := w1\<rparr>))"
      unfolding task_succeeded_def Let_def assms option.case
        tokens_def [symmetric] g s2_def [symmetric] res_def [symmetric] ap Inl prod.case sum.case
        f_def [symmetric] ..
    moreover have "\<forall>t. priority (f t) = priority t \<and> depth (f t) = depth t \<and> t_id (f t) = t_id t"
      by (simp add: f_def)
    ultimately show ?thesis using s2 by (intro exI [of _ f] exI [of _ "s2\<lparr>world := w1\<rparr>"]) auto
  next
    case (Inr y)
    obtain res1 status1 done1 where y: "y = (res1, status1, done1)" by (cases y)
    define perf where "perf = scoreOutput status1 r (p_files p) (p_execBlocks p) (execResults res1)"
    define s3 where "s3 = s2\<lparr>world := w1,
                       performanceLog :=
                         recordPerformance (performanceLog s2) (a_id (agents s2 ! ai))
                           (classifyTask (title t) (description t)) perf tid now\<rparr>"
    define f where "f = (\<lambda>t' :: task. t'\<lparr>t_status := status1, completed := done1,
                             t_result := Some (res1\<lparr>perfScore := Some perf,
                                                    res_taskTypes := Some (classifyTask (title t) (description t))\<rparr>)\<rparr>)"
    have "task_succeeded e now tid ai r p s =
               (None,
                if length (p_subtasks p) > 0 \<and> depth t < 3
                then spawn_subtasks e now tid (depth t) (a_id (agents s2 ! ai)) (update_task tid f s3) (p_subtasks p)
                else update_task tid f s3)"
      unfolding task_succeeded_def Let_def assms option.case
        tokens_def [symmetric] g s2_def [symmetric] res_def [symmetric] ap Inr y prod.case sum.case
        perf_def [symmetric] s3_def [symmetric] f_def [symmetric] ..
    moreover have "tasks s3 = tasks s" "detached s3 = detached s" "taskCounter s3 = taskCounter s"
      using s2 by (simp_all add: s3_def)
    moreover have "\<exists>aid tys sc. performanceLog s3
                       = recordPerformance (performanceLog s) aid tys sc tid now"
      using s2(5) by (auto simp: s3_def)
    moreover have "\<forall>t. priority (f t) = priority t \<and> depth (f t) = depth t \<and> t_id (f t) = t_id t"
      by (simp add: f_def)
    ultimately show ?thesis using s2(4) by (intro exI [of _ f] exI [of _ s3]) auto
  qed
qed

lemma task_succeeded_no_task:
  "held_task s tid = None \<Longrightarrow> task_succeeded e now tid ai r p s = (None, s)"
  by (simp add: task_succeeded_def)

lemma task_inv_task_succeeded:
  assumes "task_inv Q s" and "Q PMedium 0" and "\<And>p d n. Q p d \<Longrightarrow> n < 3 \<Longrightarrow> Q p (n + 1)"
  shows "task_inv Q (snd (task_succeeded e now tid ai r p s))"
proof (cases "held_task s tid")
  case None
  then show ?thesis using assms(1) by (simp add: task_succeeded_no_task)
next
  case (Some t)
  from task_succeeded_shape [OF Some, where e = e and now = now and ai = ai and r = r and p = p]
  obtain f s3 where s3: "tasks s3 = tasks s" "detached s3 = detached s"
    and f: "\<forall>t. priority (f t) = priority t \<and> depth (f t) = depth t \<and> t_id (f t) = t_id t"
    and eq: "task_succeeded e now tid ai r p s =
                (None,
                 if length (p_subtasks p) > 0 \<and> depth t < 3
                 then spawn_subtasks e now tid (depth t) (a_id (agents s ! ai))
                        (update_task tid f s3) (p_subtasks p)
                 else update_task tid f s3)
              \<or> (\<exists>message. task_succeeded e now tid ai r p s = (Some message, update_task tid f s3))"
    by blast
  have "task_inv Q s3" using assms(1) s3 by (simp add: task_inv_def)
  then have u: "task_inv Q (update_task tid f s3)"
    by (rule task_inv_update_task) (simp add: f)
  from eq show ?thesis
  proof
    assume e1: "task_succeeded e now tid ai r p s =
                (None,
                 if length (p_subtasks p) > 0 \<and> depth t < 3
                 then spawn_subtasks e now tid (depth t) (a_id (agents s ! ai))
                        (update_task tid f s3) (p_subtasks p)
                 else update_task tid f s3)"
    show ?thesis
    proof (cases "length (p_subtasks p) > 0 \<and> depth t < 3")
      case True
      then have "\<And>p d. Q p d \<Longrightarrow> Q p (depth t + 1)" using assms(3) by blast
      with u assms(2) have "task_inv Q (spawn_subtasks e now tid (depth t) (a_id (agents s ! ai))
                                (update_task tid f s3) (p_subtasks p))"
        by (rule task_inv_spawn_subtasks)
      then show ?thesis using e1 True by simp
    next
      case False
      then show ?thesis using e1 u by auto
    qed
  next
    assume "\<exists>message. task_succeeded e now tid ai r p s = (Some message, update_task tid f s3)"
    then show ?thesis using u by auto
  qed
qed

lemma task_inv_task_failed:
  assumes "task_inv Q s"
  shows "task_inv Q (task_failed e now tid ai st msg s)"
proof (cases "held_task s tid")
  case None
  then show ?thesis using assms by (simp add: task_failed_def)
next
  case (Some t)
  define s1 where "s1 = update_task tid
                      (\<lambda>t. t\<lparr>t_status := Failed, completed := Some now,
                             t_result := Some \<lparr>res_success = False, res_output = msg,
                                               res_rawOutput = None, res_tokensUsed = 0,
                                               res_files = [], fileContents = None,
                                               execBlocks = None, execResults = None,
                                               perfScore = None, res_taskTypes = None\<rparr>\<rparr>) s"
  have "task_inv Q s1" unfolding s1_def using assms by (rule task_inv_update_task) simp
  then have "task_inv Q s'" if "tasks s' = tasks s1" "detached s' = detached s1" for s'
    using that by (simp add: task_inv_def)
  then show ?thesis
    unfolding task_failed_def Some option.case Let_def s1_def [symmetric]
    by (simp add: update_agent_def)
qed

lemma task_inv_executeTask:
  assumes "task_inv Q s" and "Q PMedium 0" and "\<And>p d n. Q p d \<Longrightarrow> n < 3 \<Longrightarrow> Q p (n + 1)"
    and "executeTask e now tid ai outcome s = Some s'"
  shows "task_inv Q s'"
proof -
  let ?s0 = "s\<lparr>running := remove1 (tid, ai) (running s)\<rparr>"
  have s0: "task_inv Q ?s0" using assms(1) by (simp add: task_inv_def)
  show ?thesis
  proof (cases outcome)
    case (Returned r)
    with assms(4) obtain p where p: "parse_output (m_output r) = Some p"
      by (auto simp: executeTask_def Let_def split: option.splits)
    obtain m s1 where ts: "task_succeeded e now tid ai r p ?s0 = (m, s1)"
      by (cases "task_succeeded e now tid ai r p ?s0")
    from task_inv_task_succeeded [OF s0 assms(2,3), where e = e and now = now and tid = tid
        and ai = ai and r = r and p = p] ts
    have s1: "task_inv Q s1" by simp
    show ?thesis
    proof (cases m)
      case None
      with assms(4) Returned p ts have "s' = task_finally ai s1"
        by (simp add: executeTask_def Let_def)
      then show ?thesis using s1 by (simp add: task_inv_task_finally)
    next
      case (Some message)
      with assms(4) Returned p ts
      have "s' = task_finally ai (task_failed e now tid ai None message s1)"
        by (simp add: executeTask_def Let_def)
      then show ?thesis using s1 by (simp add: task_inv_task_finally task_inv_task_failed)
    qed
  next
    case (Threw st msg)
    with assms(4) have "s' = task_finally ai (task_failed e now tid ai st msg ?s0)"
      by (auto simp: executeTask_def Let_def)
    then show ?thesis
      using task_inv_task_failed [OF s0] by (simp add: task_inv_task_finally)
  qed
qed

lemma task_inv_approveTask:
  assumes "task_inv Q s"
  shows "task_inv Q (approveTask e now tid s)"
proof -
  have w: "task_inv Q (s\<lparr>world := w\<rparr>)" for w using assms by (simp add: task_inv_def)
  have c: "task_inv Q (update_task tid (\<lambda>t. t\<lparr>t_status := Completed, completed := Some now\<rparr>) s')"
    if "task_inv Q s'" for s'
    using that by (rule task_inv_update_task) simp
  have r: "task_inv Q (update_task tid (\<lambda>t. t\<lparr>t_result := x\<rparr>) s')" if "task_inv Q s'" for s' x
    using that by (rule task_inv_update_task) simp
  show ?thesis
    unfolding approveTask_def Let_def
    using assms by (auto split: option.splits prod.splits sum.splits intro!: c r w)
qed

lemma task_inv_foldl_createTask:
  assumes "Q PMedium 0"
  shows "task_inv Q s \<Longrightarrow>
    task_inv Q (foldl (\<lambda>s a. snd (createTask e now s ttl d (Some a))) s aids)"
  by (induction aids arbitrary: s) (simp_all add: task_inv_createTask assms)

lemma task_inv_handleCommand:
  assumes "task_inv Q s" and "Q PMedium 0"
  shows "task_inv Q (handleCommand e now c s)"
proof (cases c)
  case (CreateTask ttl d agentId agentIds)
  show ?thesis
  proof (cases agentIds)
    case None
    then show ?thesis using CreateTask assms by (simp add: handleCommand_def task_inv_createTask)
  next
    case (Some ids)
    then show ?thesis
      using CreateTask assms task_inv_foldl_createTask [OF assms(2) assms(1), of e now ttl "or_title d ttl" ids]
      by (cases ids) (simp_all add: handleCommand_def task_inv_createTask)
  qed
next
  case (AddAgent cfg)
  then show ?thesis using assms by (simp add: handleCommand_def task_inv_def)
next
  case (ApproveTask tid)
  then show ?thesis using assms by (simp add: handleCommand_def task_inv_approveTask)
next
  case (RejectTask tid)
  then show ?thesis using assms by (simp add: handleCommand_def task_inv_rejectTask)
next
  case ToggleAutoApprove
  then show ?thesis using assms by (simp add: handleCommand_def task_inv_def)
qed

lemma task_inv_post_task:
  assumes "task_inv Q s" and "Q PMedium 0"
  shows "task_inv Q (post_task e now ttl d agentId s)"
  using assms by (simp add: post_task_def task_inv_createTask split: option.splits)

lemma task_inv_step:
  assumes "task_inv Q s" and "Q PMedium 0" and "\<And>p d n. Q p d \<Longrightarrow> n < 3 \<Longrightarrow> Q p (n + 1)"
    and "step e now ev s = Some s'"
  shows "task_inv Q s'"
proof (cases ev)
  case (Command c)
  then show ?thesis using assms by (auto simp: step_def task_inv_handleCommand)
next
  case (PostTask ttl d agentId)
  then show ?thesis using assms by (auto simp: step_def task_inv_post_task)
next
  case DispatchTick
  then show ?thesis using assms by (auto simp: step_def task_inv_runDispatch)
next
  case RechargeTick
  then show ?thesis using assms by (auto simp: step_def task_inv_recharge)
next
  case (ModelDone tid ai outcome)
  then have "executeTask e now tid ai outcome s = Some s'"
    using assms(4) by (simp add: step_def split: if_splits)
  with assms(1,2,3) show ?thesis by (rule task_inv_executeTask)
qed

lemma task_inv_reachable:
  assumes "reachable e s" and "Q PMedium 0" and "\<And>p d n. Q p d \<Longrightarrow> n < 3 \<Longrightarrow> Q p (n + 1)"
  shows "task_inv Q s"
  using assms(1)
proof (induction rule: reachable.induct)
  case (start s)
  then show ?case by (simp add: initial_def task_inv_def)
next
  case (next_event s now ev s')
  from next_event.IH assms(2,3) next_event.hyps(2) show ?case by (rule task_inv_step)
qed

subsection \<open>What dispatching and creating keep\<close>

lemma same_task_refl [simp]: "same_task t t"
  by (simp add: same_task_def)

lemma same_task_trans: "same_task a b \<Longrightarrow> same_task b c \<Longrightarrow> same_task a c"
  by (simp add: same_task_def)

lemma list_all2_same_task_refl [simp]: "list_all2 same_task ts ts"
  by (simp add: list_all2_refl)

lemma list_all2_same_task_trans:
  "list_all2 same_task a b \<Longrightarrow> list_all2 same_task b c \<Longrightarrow> list_all2 same_task a c"
  by (rule list_all2_trans [of same_task same_task same_task]) (auto intro: same_task_trans)

lemma same_task_map:
  assumes "\<And>t. same_task t (f t)"
  shows "list_all2 same_task ts (map (\<lambda>t. if t_id t = tid then f t else t) ts)"
  using assms by (induction ts) simp_all

lemma launch_keeps:
  "list_all2 same_task (tasks s) (tasks (launch now tid i s))
   \<and> taskCounter (launch now tid i s) = taskCounter s"
  by (simp add: launch_def Let_def update_task_def update_agent_def same_task_map same_task_def)

lemma dispatch_one_keeps:
  "list_all2 same_task (tasks s) (tasks (dispatch_one e now s tid))
   \<and> taskCounter (dispatch_one e now s tid) = taskCounter s"
proof -
  consider (same) "dispatch_one e now s tid = s"
    | (launched) i s1 where "s1 = s \<or> s1 = s\<lparr>randomCount := randomCount s + 1\<rparr>"
        "dispatch_one e now s tid = launch now tid i s1"
    using dispatch_one_cases [of e now s tid] by blast
  then show ?thesis
  proof cases
    case same
    then show ?thesis by simp
  next
    case launched
    from launched(1) have "tasks s1 = tasks s" "taskCounter s1 = taskCounter s" by auto
    then show ?thesis using launch_keeps [of s1 now tid i] launched(2) by simp
  qed
qed

lemma foldl_dispatch_keeps:
  "list_all2 same_task (tasks s) (tasks (foldl (dispatch_one e now) s tids))
   \<and> taskCounter (foldl (dispatch_one e now) s tids) = taskCounter s"
proof (induction tids arbitrary: s)
  case Nil
  then show ?case by simp
next
  case (Cons tid tids)
  from dispatch_one_keeps [of s e now tid] Cons [of "dispatch_one e now s tid"]
  show ?case by (auto intro: list_all2_same_task_trans)
qed

lemma runDispatch_keeps:
  "list_all2 same_task (tasks s) (tasks (runDispatch e now s))
   \<and> taskCounter (runDispatch e now s) = taskCounter s"
  by (simp add: runDispatch_def Let_def foldl_dispatch_keeps)

lemma createTask_adds:
  assumes "createTask e now s ttl d p = (cid, s1)"
  shows "cid = task_id_of (taskCounter s + 1) \<and> taskCounter s1 = taskCounter s + 1
    \<and> (\<exists>new. t_id new = cid \<and> depth new = 0 \<and> priority new = PMedium
           \<and> list_all2 same_task (tasks s @ [new]) (tasks s1))"
proof -
  define new where "new = \<lparr>t_id = task_id_of (taskCounter s + 1), title = ttl, description = d, t_status = Pending,
               risk = (if autoApproveAll s then Low
                 else if any_of [''test'', ''doc'', ''readme'', ''comment'', ''type'', ''hello'',
                                 ''simple'', ''example''] (toLowerCase ttl)
                 then Low else High), priority = PMedium, assignedAgentId = None, createdBy = ''user'',
               parentTaskId = None, depth = 0, created = now, started = None,
               completed = None, t_result = None, tags = classifyTask ttl d,
               preferredAgentId = (case p of
                                     None \<Rightarrow> ''auto''
                                   | Some p \<Rightarrow> if p = [] then ''auto'' else p)\<rparr>"
  define s0 where "s0 = s\<lparr>taskCounter := taskCounter s + 1, tasks := tasks s @ [new]\<rparr>"
  have "createTask e now s ttl d p = (task_id_of (taskCounter s + 1), runDispatch e now s0)"
    unfolding createTask_def Let_def new_def [symmetric] s0_def [symmetric] ..
  with assms have c: "cid = task_id_of (taskCounter s + 1)" and s1: "s1 = runDispatch e now s0"
    by simp_all
  from runDispatch_keeps [of s0 e now] s1
  have "list_all2 same_task (tasks s @ [new]) (tasks s1)" "taskCounter s1 = taskCounter s + 1"
    by (simp_all add: s0_def)
  moreover have "t_id new = cid" "depth new = 0" "priority new = PMedium"
    by (simp_all add: new_def c)
  ultimately show ?thesis using c by blast
qed

lemma list_all2_right:
  "list_all2 R xs ys \<Longrightarrow> y \<in> set ys \<Longrightarrow> \<exists>x\<in>set xs. R x y"
  by (induction rule: list_all2_induct) auto

lemma list_all2_left:
  "list_all2 R xs ys \<Longrightarrow> x \<in> set xs \<Longrightarrow> \<exists>y\<in>set ys. R x y"
  by (induction rule: list_all2_induct) auto

lemma spawn_iteration:
  assumes c: "createTask e now s ttl d p = (cid', s1)"
    and s2: "s2 = update_task cid'
                 (\<lambda>c. c\<lparr>parentTaskId := Some pid, depth := pdepth + 1,
                        createdBy := ''agent:'' @ aid\<rparr>) s1"
  shows "cid' = task_id_of (taskCounter s + 1)" and "taskCounter s2 = taskCounter s + 1"
    and "has_child pid pdepth aid cid' s2"
    and "has_child pid pdepth aid cid s \<Longrightarrow> has_child pid pdepth aid cid s2"
proof -
  let ?g = "\<lambda>c :: task. c\<lparr>parentTaskId := Some pid, depth := pdepth + 1, createdBy := ''agent:'' @ aid\<rparr>"
  from createTask_adds [OF c] obtain new where
    id: "cid' = task_id_of (taskCounter s + 1)" and cnt: "taskCounter s1 = taskCounter s + 1"
    and new: "t_id new = cid'" and rel: "list_all2 same_task (tasks s @ [new]) (tasks s1)"
    by blast
  show "cid' = task_id_of (taskCounter s + 1)" by (rule id)
  show "taskCounter s2 = taskCounter s + 1" using cnt by (simp add: s2 update_task_def)
  have t2: "tasks s2 = map (\<lambda>t. if t_id t = cid' then ?g t else t) (tasks s1)"
    by (simp add: s2 update_task_def)
  have g: "child_of pid pdepth aid (?g t)" "t_id (?g t) = t_id t" for t
    by (simp_all add: child_of_def)
  from list_all2_left [OF rel, of new] obtain n1 where n1: "n1 \<in> set (tasks s1)" "t_id n1 = cid'"
    using new by (auto simp: same_task_def)
  have "?g n1 \<in> set (tasks s2)"
    unfolding t2 using n1 by (auto simp: image_iff intro!: bexI [of _ n1])
  then have own_ex: "\<exists>c\<in>set (tasks s2). t_id c = cid'"
    using n1(2) g(2) [of n1] by (intro bexI [of _ "?g n1"]) simp_all
  have own_all: "\<forall>c\<in>set (tasks s2). t_id c = cid' \<longrightarrow> child_of pid pdepth aid c"
    unfolding t2 using g by auto
  show own: "has_child pid pdepth aid cid' s2"
    using own_ex own_all by (simp add: has_child_def list_ex_iff list_all_iff)
  show "has_child pid pdepth aid cid s2" if h: "has_child pid pdepth aid cid s"
  proof (cases "cid = cid'")
    case True
    then show ?thesis using own by simp
  next
    case False
    from h obtain c0 where c0: "c0 \<in> set (tasks s)" "t_id c0 = cid"
      by (auto simp: has_child_def list_ex_iff)
    then obtain c1 where c1: "c1 \<in> set (tasks s1)" "same_task c0 c1"
      using list_all2_left [OF rel, of c0] by auto
    then have id1: "t_id c1 = cid" using c0 by (simp add: same_task_def)
    have "c1 \<in> set (tasks s2)"
      unfolding t2 using c1(1) id1 False by (auto simp: image_iff intro!: bexI [of _ c1])
    then have ex: "\<exists>c\<in>set (tasks s2). t_id c = cid" using id1 by blast
    have "child_of pid pdepth aid c2" if c2: "c2 \<in> set (tasks s2)" "t_id c2 = cid" for c2
    proof -
      from c2 False have in1: "c2 \<in> set (tasks s1)"
        unfolding t2 by (auto split: if_splits)
      then obtain b where b: "b \<in> set (tasks s @ [new])" "same_task b c2"
        using list_all2_right [OF rel] by blast
      then have "t_id b = cid" using c2 by (simp add: same_task_def)
      then have "b \<in> set (tasks s)" using b(1) new False by auto
      then have "child_of pid pdepth aid b"
        using h \<open>t_id b = cid\<close> by (auto simp: has_child_def list_all_iff)
      then show ?thesis using b(2) by (simp add: child_of_def same_task_def)
    qed
    with ex show ?thesis by (auto simp: has_child_def list_ex_iff list_all_iff)
  qed
qed

lemma spawn_keeps_child:
  "has_child pid pdepth aid cid s \<Longrightarrow>
   has_child pid pdepth aid cid (spawn_subtasks e now pid pdepth aid s subs)"
proof (induction subs arbitrary: s)
  case Nil
  then show ?case by simp
next
  case (Cons sub subs)
  obtain cid' s1 where c: "createTask e now s (s_title sub) (s_description sub)
                        (Some (if s_agent sub = ''auto'' then ''auto'' else s_agent sub)) = (cid', s1)"
    by (cases "createTask e now s (s_title sub) (s_description sub)
                        (Some (if s_agent sub = ''auto'' then ''auto'' else s_agent sub))")
  define s2 where "s2 = update_task cid'
                 (\<lambda>c. c\<lparr>parentTaskId := Some pid, depth := pdepth + 1,
                        createdBy := ''agent:'' @ aid\<rparr>) s1"
  from spawn_iteration(4) [OF c s2_def Cons.prems] have "has_child pid pdepth aid cid s2" .
  then have "has_child pid pdepth aid cid (spawn_subtasks e now pid pdepth aid s2 subs)"
    by (rule Cons.IH)
  then show ?case using c by (simp add: s2_def)
qed

lemma spawn_children:
  "taskCounter (spawn_subtasks e now pid pdepth aid s subs) = taskCounter s + length subs
   \<and> (\<forall>k < length subs.
        has_child pid pdepth aid (task_id_of (taskCounter s + 1 + k))
          (spawn_subtasks e now pid pdepth aid s subs))"
proof (induction subs arbitrary: s)
  case Nil
  then show ?case by simp
next
  case (Cons sub subs)
  obtain cid' s1 where c: "createTask e now s (s_title sub) (s_description sub)
                        (Some (if s_agent sub = ''auto'' then ''auto'' else s_agent sub)) = (cid', s1)"
    by (cases "createTask e now s (s_title sub) (s_description sub)
                        (Some (if s_agent sub = ''auto'' then ''auto'' else s_agent sub))")
  define s2 where "s2 = update_task cid'
                 (\<lambda>c. c\<lparr>parentTaskId := Some pid, depth := pdepth + 1,
                        createdBy := ''agent:'' @ aid\<rparr>) s1"
  note it = spawn_iteration [OF c s2_def]
  have eq: "spawn_subtasks e now pid pdepth aid s (sub # subs)
      = spawn_subtasks e now pid pdepth aid s2 subs"
    using c by (simp add: s2_def)
  from Cons.IH [of s2] have
    cnt: "taskCounter (spawn_subtasks e now pid pdepth aid s2 subs) = taskCounter s2 + length subs"
    and rest: "\<forall>k < length subs. has_child pid pdepth aid (task_id_of (taskCounter s2 + 1 + k))
          (spawn_subtasks e now pid pdepth aid s2 subs)"
    by simp_all
  have first: "has_child pid pdepth aid (task_id_of (taskCounter s + 1))
          (spawn_subtasks e now pid pdepth aid s2 subs)"
    using it(3) it(1) by (auto intro: spawn_keeps_child)
  have "has_child pid pdepth aid (task_id_of (taskCounter s + 1 + k))
          (spawn_subtasks e now pid pdepth aid s2 subs)" if "k < length (sub # subs)" for k
  proof (cases k)
    case 0
    then show ?thesis using first by simp
  next
    case (Suc j)
    then have "j < length subs" using that by simp
    with rest have "has_child pid pdepth aid (task_id_of (taskCounter s2 + 1 + j))
          (spawn_subtasks e now pid pdepth aid s2 subs)" by blast
    then show ?thesis using Suc it(2) by (simp add: add.commute add.left_commute)
  qed
  then show ?case using cnt it(2) eq by simp
qed

subsection \<open>Dispatch and the working agents\<close>

lemma filter_update_gain:
  "i < length xs \<Longrightarrow> \<not> P (xs ! i) \<Longrightarrow> P y \<Longrightarrow>
   length (filter P (xs[i := y])) = length (filter P xs) + 1"
proof (induction xs arbitrary: i)
  case Nil
  then show ?case by simp
next
  case (Cons x xs)
  then show ?case by (cases i) auto
qed

lemma filter_update_loss:
  "i < length xs \<Longrightarrow> P (xs ! i) \<Longrightarrow> \<not> P y \<Longrightarrow>
   length (filter P (xs[i := y])) + 1 = length (filter P xs)"
proof (induction xs arbitrary: i)
  case Nil
  then show ?case by simp
next
  case (Cons x xs)
  then show ?case by (cases i) auto
qed

lemma length_filter_index:
  "length (filter (\<lambda>i. P (xs ! i)) [0 ..< length xs]) = length (filter P xs)"
proof (induction xs rule: rev_induct)
  case Nil
  then show ?case by simp
next
  case (snoc x xs)
  have "filter (\<lambda>i. P ((xs @ [x]) ! i)) [0 ..< length xs] = filter (\<lambda>i. P (xs ! i)) [0 ..< length xs]"
    by (rule filter_cong) (auto simp: nth_append)
  then show ?case using snoc by simp
qed

lemma length_getCallableAgents:
  "length (getCallableAgents s) = length (filter callable (agents s))"
  unfolding getCallableAgents_def
  using length_filter_index [of callable "agents s"] by (simp add: callable_def)

lemma getCallableAgents_mem:
  "i \<in> set (getCallableAgents s) \<Longrightarrow> i < length (agents s) \<and> callable (agents s ! i)"
  by (auto simp: getCallableAgents_def callable_def)

lemma launch_counts:
  assumes "i < length (agents s)" and "callable (agents s ! i)"
  shows "count_working (launch now tid i s) = count_working s + 1"
    and "length (filter callable (agents (launch now tid i s))) + 1 = length (filter callable (agents s))"
    and "length (running (launch now tid i s)) = length (running s) + 1"
    and "length (agents (launch now tid i s)) = length (agents s)"
proof -
  let ?a = "(agents s ! i)\<lparr>a_status := Working, currentTaskId := Some tid\<rparr>"
  have ag: "agents (launch now tid i s) = (agents s)[i := ?a]"
    using assms(1) by (simp add: launch_def Let_def update_agent_def update_task_def)
  have idle: "a_status (agents s ! i) = Idle" using assms(2) by (simp add: callable_def)
  show "count_working (launch now tid i s) = count_working s + 1"
    unfolding count_working_def ag
    using assms(1) idle by (intro filter_update_gain) simp_all
  show "length (filter callable (agents (launch now tid i s))) + 1 = length (filter callable (agents s))"
    unfolding ag using assms by (intro filter_update_loss) (simp_all add: callable_def)
  show "length (running (launch now tid i s)) = length (running s) + 1"
    by (simp add: launch_def Let_def update_agent_def update_task_def)
  show "length (agents (launch now tid i s)) = length (agents s)"
    by (simp add: ag)
qed

text \<open>What one round of the dispatch loop does to the counts: nothing, or one launch
  that turns one callable agent into a working one.\<close>

lemma dispatch_one_counts:
  "(count_working (dispatch_one e now s tid) = count_working s
    \<and> length (filter callable (agents (dispatch_one e now s tid))) = length (filter callable (agents s))
    \<and> length (running (dispatch_one e now s tid)) = length (running s)
    \<or> count_working (dispatch_one e now s tid) = count_working s + 1
    \<and> length (filter callable (agents (dispatch_one e now s tid))) + 1 = length (filter callable (agents s))
    \<and> length (running (dispatch_one e now s tid)) = length (running s) + 1)
   \<and> length (agents (dispatch_one e now s tid)) = length (agents s)"
proof -
  consider (same) "dispatch_one e now s tid = s"
    | (launched) i s1 where "i \<in> set (getCallableAgents s)"
        "s1 = s \<or> s1 = s\<lparr>randomCount := randomCount s + 1\<rparr>"
        "dispatch_one e now s tid = launch now tid i s1"
    using dispatch_one_cases [of e now s tid] by blast
  then show ?thesis
  proof cases
    case same
    then show ?thesis by simp
  next
    case launched
    from launched(1) have i: "i < length (agents s)" "callable (agents s ! i)"
      by (auto dest: getCallableAgents_mem)
    from launched(2) have eq: "agents s1 = agents s" "running s1 = running s"
      by auto
    then have i1: "i < length (agents s1)" "callable (agents s1 ! i)" using i by simp_all
    have w: "count_working s1 = count_working s" using eq by (simp add: count_working_def)
    from launch_counts [OF i1, of now tid] show ?thesis
      unfolding launched(3) using eq w by simp
  qed
qed

lemma foldl_dispatch_counts:
  "count_working (foldl (dispatch_one e now) s tids) + length (running s)
     = count_working s + length (running (foldl (dispatch_one e now) s tids))
   \<and> length (running (foldl (dispatch_one e now) s tids)) + length (filter callable (agents (foldl (dispatch_one e now) s tids)))
       = length (running s) + length (filter callable (agents s))
   \<and> length (running s) \<le> length (running (foldl (dispatch_one e now) s tids))
   \<and> length (running (foldl (dispatch_one e now) s tids)) \<le> length (running s) + length tids
   \<and> length (agents (foldl (dispatch_one e now) s tids)) = length (agents s)"
proof (induction tids arbitrary: s)
  case Nil
  then show ?case by simp
next
  case (Cons tid tids)
  from dispatch_one_counts [of e now s tid] Cons [of "dispatch_one e now s tid"]
  show ?case by (elim conjE disjE) simp_all
qed

subsection \<open>The performance log in the runs of the server\<close>

text \<open>Only the scoring at the end of an execution changes the performance log.\<close>

lemma log_update_agent [simp]: "performanceLog (update_agent i f s) = performanceLog s"
  by (simp add: update_agent_def)

lemma log_update_task [simp]: "performanceLog (update_task tid f s) = performanceLog s"
  by (simp add: update_task_def)

lemma log_launch [simp]: "performanceLog (launch now tid i s) = performanceLog s"
  by (simp add: launch_def Let_def)

lemma log_dispatch_one [simp]: "performanceLog (dispatch_one e now s tid) = performanceLog s"
proof -
  consider (same) "dispatch_one e now s tid = s"
    | (launched) i s1 where "s1 = s \<or> s1 = s\<lparr>randomCount := randomCount s + 1\<rparr>"
        "dispatch_one e now s tid = launch now tid i s1"
    using dispatch_one_cases [of e now s tid] by blast
  then show ?thesis
  proof cases
    case same
    then show ?thesis by simp
  next
    case launched
    from launched(1) have "performanceLog s1 = performanceLog s" by auto
    then show ?thesis unfolding launched(2) by simp
  qed
qed

lemma log_foldl_dispatch [simp]:
  "performanceLog (foldl (dispatch_one e now) s tids) = performanceLog s"
  by (induction tids arbitrary: s) simp_all

lemma log_runDispatch [simp]: "performanceLog (runDispatch e now s) = performanceLog s"
  by (simp add: runDispatch_def Let_def)

lemma log_createTask [simp]:
  "performanceLog (snd (createTask e now s ttl d p)) = performanceLog s"
  by (simp add: createTask_def Let_def)

lemma log_spawn_subtasks [simp]:
  "performanceLog (spawn_subtasks e now pid pdepth aid s subs) = performanceLog s"
proof (induction subs arbitrary: s)
  case Nil
  then show ?case by simp
next
  case (Cons sub subs)
  obtain cid s1 where c: "createTask e now s (s_title sub) (s_description sub)
                        (Some (if s_agent sub = ''auto'' then ''auto'' else s_agent sub)) = (cid, s1)"
    by (cases "createTask e now s (s_title sub) (s_description sub)
                        (Some (if s_agent sub = ''auto'' then ''auto'' else s_agent sub))")
  have "performanceLog (snd (cid, s1)) = performanceLog s"
    unfolding c [symmetric] by (rule log_createTask)
  then show ?case using c Cons.IH by simp
qed

lemma log_cleanupTasks [simp]: "performanceLog (cleanupTasks s) = performanceLog s"
  by (simp add: cleanupTasks_def Let_def)

lemma log_task_finally [simp]: "performanceLog (task_finally ai s) = performanceLog s"
  by (simp add: task_finally_def)

lemma log_approveTask [simp]: "performanceLog (approveTask e now tid s) = performanceLog s"
  by (simp add: approveTask_def Let_def split: option.splits prod.splits sum.splits)

lemma log_rejectTask [simp]: "performanceLog (rejectTask now tid s) = performanceLog s"
  by (simp add: rejectTask_def split: option.splits)

lemma log_foldl_createTask [simp]:
  "performanceLog (foldl (\<lambda>s a. snd (createTask e now s ttl d (Some a))) s aids) = performanceLog s"
  by (induction aids arbitrary: s) simp_all

lemma log_handleCommand [simp]: "performanceLog (handleCommand e now c s) = performanceLog s"
  by (simp add: handleCommand_def split: command.splits option.splits list.splits)

lemma log_post_task [simp]: "performanceLog (post_task e now ttl d a s) = performanceLog s"
  by (simp add: post_task_def split: option.splits)

lemma log_recharge [simp]: "performanceLog (recharge now s) = performanceLog s"
  by (simp add: recharge_def)






subsection \<open>Which executions a dispatch launches\<close>

lemma running_launch: "running (launch now tid i s) = running s @ [(tid, i)]"
  by (simp add: launch_def Let_def update_task_def update_agent_def)

lemma task_ids_same:
  "list_all2 same_task ts ts' \<Longrightarrow> map t_id ts' = map t_id ts"
  by (induction rule: list_all2_induct) (simp_all add: same_task_def)

lemma find_task_id: "find_task s tid \<noteq> None \<longleftrightarrow> tid \<in> set (map t_id (tasks s))"
  by (auto simp: find_task_def find_None_iff)

text \<open>The agents that are callable after a launch are those that were, but for the
  agent taken.\<close>

lemma getCallableAgents_launch:
  assumes "i \<in> set (getCallableAgents s)"
  shows "getCallableAgents (launch now tid i s) = filter (\<lambda>j. j \<noteq> i) (getCallableAgents s)"
proof -
  let ?a = "(agents s ! i)\<lparr>a_status := Working, currentTaskId := Some tid\<rparr>"
  from assms have i: "i < length (agents s)" by (simp add: getCallableAgents_def)
  then have ag: "agents (launch now tid i s) = (agents s)[i := ?a]"
    by (simp add: launch_def Let_def update_agent_def update_task_def)
  have "filter (\<lambda>j. a_status ((agents s)[i := ?a] ! j) = Idle \<and> \<not> is_bridge ((agents s)[i := ?a] ! j)
                    \<and> a_status ((agents s)[i := ?a] ! j) \<noteq> Offline) [0 ..< length (agents s)]
      = filter (\<lambda>j. a_status (agents s ! j) = Idle \<and> \<not> is_bridge (agents s ! j)
                    \<and> a_status (agents s ! j) \<noteq> Offline \<and> j \<noteq> i) [0 ..< length (agents s)]"
    using i by (intro filter_cong) (auto simp: nth_list_update)
  then show ?thesis
    unfolding getCallableAgents_def ag by simp
qed

text \<open>One round of the dispatch loop, for a task of the task list: with no callable
  agent nothing changes; otherwise the execution of the task is launched with one of
  the callable agents.\<close>

lemma dispatch_one_exact:
  assumes "tid \<in> set (map t_id (tasks s))"
  shows "getCallableAgents s = [] \<and> dispatch_one e now s tid = s
    \<or> (\<exists>i s1. i \<in> set (getCallableAgents s)
          \<and> (s1 = s \<or> s1 = s\<lparr>randomCount := randomCount s + 1\<rparr>)
          \<and> dispatch_one e now s tid = launch now tid i s1)"
proof -
  from assms obtain t where t: "find_task s tid = Some t"
    using find_task_id [of s tid] by auto
  from pickAgent_cases [of e s "preferredAgentId t" "title t" "description t"]
  show ?thesis
  proof (elim disjE conjE exE)
    assume "pickAgent e s (preferredAgentId t) (title t) (description t) = (None, s)"
      and "getCallableAgents s = []"
    then show ?thesis using t by (simp add: dispatch_one_def)
  next
    fix i
    assume "i \<in> set (getCallableAgents s)"
      and "pickAgent e s (preferredAgentId t) (title t) (description t) = (Some i, s)"
    then show ?thesis using t by (auto simp: dispatch_one_def)
  next
    fix i
    assume "i \<in> set (getCallableAgents s)"
      and "pickAgent e s (preferredAgentId t) (title t) (description t)
             = (Some i, s\<lparr>randomCount := randomCount s + 1\<rparr>)"
    then show ?thesis using t by (auto simp: dispatch_one_def)
  qed
qed

lemma dispatch_one_launches:
  assumes "tid \<in> set (map t_id (tasks s))" and "getCallableAgents s \<noteq> []"
  shows "\<exists>i. i \<in> set (getCallableAgents s)
           \<and> running (dispatch_one e now s tid) = running s @ [(tid, i)]
           \<and> getCallableAgents (dispatch_one e now s tid) = filter (\<lambda>j. j \<noteq> i) (getCallableAgents s)
           \<and> count_working (dispatch_one e now s tid) = count_working s + 1"
proof -
  from dispatch_one_exact [OF assms(1), of e now] assms(2)
  obtain i s1 where i: "i \<in> set (getCallableAgents s)"
    and s1: "s1 = s \<or> s1 = s\<lparr>randomCount := randomCount s + 1\<rparr>"
    and eq: "dispatch_one e now s tid = launch now tid i s1"
    by blast
  from s1 have same: "getCallableAgents s1 = getCallableAgents s" "running s1 = running s"
    "count_working s1 = count_working s" "agents s1 = agents s"
    by (auto simp: getCallableAgents_def count_working_def)
  from i have ic: "i < length (agents s1)" "callable (agents s1 ! i)"
    using same(4) by (auto dest: getCallableAgents_mem)
  have "running (dispatch_one e now s tid) = running s @ [(tid, i)]"
    unfolding eq using same by (simp add: running_launch)
  moreover have "getCallableAgents (dispatch_one e now s tid) = filter (\<lambda>j. j \<noteq> i) (getCallableAgents s)"
    unfolding eq using getCallableAgents_launch [of i s1 now tid] i same by simp
  moreover have "count_working (dispatch_one e now s tid) = count_working s + 1"
    unfolding eq using launch_counts(1) [OF ic, of now tid] same by simp
  ultimately show ?thesis using i by blast
qed

lemma distinct_getCallableAgents: "distinct (getCallableAgents s)"
  by (simp add: getCallableAgents_def)

lemma length_filter_remove:
  "distinct xs \<Longrightarrow> i \<in> set xs \<Longrightarrow> length (filter (\<lambda>j. j \<noteq> i) xs) + 1 = length xs"
proof (induction xs)
  case Nil
  then show ?case by simp
next
  case (Cons x xs)
  show ?case
  proof (cases "x = i")
    case True
    then have "i \<notin> set xs" using Cons.prems by simp
    then have "filter (\<lambda>j. j \<noteq> i) xs = xs" by (auto simp: filter_id_conv)
    then show ?thesis using True by simp
  next
    case False
    then show ?thesis using Cons by simp
  qed
qed

text \<open>
  The loop over the pending tasks: the tasks are launched in turn as long as a
  callable agent is left, each with an agent of its own that was callable before the
  loop.
\<close>

lemma foldl_dispatch_exact:
  assumes "set tids \<subseteq> set (map t_id (tasks s))"
  shows "\<exists>R. running (foldl (dispatch_one e now) s tids) = running s @ R
      \<and> map fst R = take (length (getCallableAgents s)) tids
      \<and> distinct (map snd R) \<and> set (map snd R) \<subseteq> set (getCallableAgents s)
      \<and> count_working (foldl (dispatch_one e now) s tids) = count_working s + length R"
  using assms
proof (induction tids arbitrary: s)
  case Nil
  then show ?case by simp
next
  case (Cons tid tids)
  let ?s' = "dispatch_one e now s tid"
  have ids: "map t_id (tasks ?s') = map t_id (tasks s)"
    using dispatch_one_keeps [of s e now tid] by (auto dest: task_ids_same)
  with Cons.prems have sub: "set tids \<subseteq> set (map t_id (tasks ?s'))" by simp
  from Cons.prems have tid: "tid \<in> set (map t_id (tasks s))" by simp
  from Cons.IH [OF sub] obtain R where R: "running (foldl (dispatch_one e now) ?s' tids) = running ?s' @ R"
    "map fst R = take (length (getCallableAgents ?s')) tids"
    "distinct (map snd R)" "set (map snd R) \<subseteq> set (getCallableAgents ?s')"
    "count_working (foldl (dispatch_one e now) ?s' tids) = count_working ?s' + length R"
    by blast
  show ?case
  proof (cases "getCallableAgents s = []")
    case True
    with dispatch_one_exact [OF tid, of e now] have "?s' = s" by auto
    with R True show ?thesis by simp
  next
    case False
    from dispatch_one_launches [OF tid False, of e now]
    obtain i where i: "i \<in> set (getCallableAgents s)"
      and run: "running ?s' = running s @ [(tid, i)]"
      and call: "getCallableAgents ?s' = filter (\<lambda>j. j \<noteq> i) (getCallableAgents s)"
      and cw: "count_working ?s' = count_working s + 1"
      by blast
    from length_filter_remove [OF distinct_getCallableAgents i]
    have len: "length (getCallableAgents s) = Suc (length (getCallableAgents ?s'))"
      unfolding call by simp
    let ?R = "(tid, i) # R"
    have "running (foldl (dispatch_one e now) s (tid # tids)) = running s @ ?R"
      using R(1) run by simp
    moreover have "map fst ?R = take (length (getCallableAgents s)) (tid # tids)"
      using R(2) len by simp
    moreover have "distinct (map snd ?R)" using R(3) R(4) call by auto
    moreover have "set (map snd ?R) \<subseteq> set (getCallableAgents s)" using R(4) call i by auto
    moreover have "count_working (foldl (dispatch_one e now) s (tid # tids)) = count_working s + length ?R"
      using R(5) cw by simp
    ultimately show ?thesis by blast
  qed
qed

lemma pending_ids_tasks: "set (pending_ids s) \<subseteq> set (map t_id (tasks s))"
  by (auto simp: pending_ids_def)

subsection \<open>Depth of tasks\<close>

lemma run_events_reachable:
  "reachable e s \<Longrightarrow> run_events e now evs s = Some s' \<Longrightarrow> reachable e s'"
proof (induction evs arbitrary: s now)
  case Nil
  then show ?case by simp
next
  case (Cons ev evs)
  from Cons.prems(2) obtain s1 where s1: "step e now ev s = Some s1"
    and rest: "run_events e (now + 1) evs s1 = Some s'"
    by (auto split: option.splits)
  from Cons.prems(1) s1 have "reachable e s1" by (rule reachable.next_event)
  then show ?case using rest by (rule Cons.IH)
qed

lemma update_task_ids:
  assumes "\<forall>t. t_id (f t) = t_id t"
  shows "map t_id (tasks (update_task tid f s)) = map t_id (tasks s)"
proof -
  have "map t_id (map (\<lambda>t. if t_id t = tid then f t else t) ts) = map t_id ts" for ts
    using assms by (induction ts) simp_all
  then show ?thesis by (simp add: update_task_def)
qed

lemma task_succeeded_at_depth_3:
  assumes "held_task s tid = Some t" and "3 \<le> depth t"
  shows "taskCounter (snd (task_succeeded e now tid ai r p s)) = taskCounter s"
    and "map t_id (tasks (snd (task_succeeded e now tid ai r p s))) = map t_id (tasks s)"
proof -
  from task_succeeded_shape [OF assms(1), where e = e and now = now and ai = ai and r = r and p = p]
  obtain f s3 where s3: "tasks s3 = tasks s" "taskCounter s3 = taskCounter s"
    and f: "\<forall>t. priority (f t) = priority t \<and> depth (f t) = depth t \<and> t_id (f t) = t_id t"
    and eq: "task_succeeded e now tid ai r p s =
                (None,
                 if length (p_subtasks p) > 0 \<and> depth t < 3
                 then spawn_subtasks e now tid (depth t) (a_id (agents s ! ai))
                        (update_task tid f s3) (p_subtasks p)
                 else update_task tid f s3)
              \<or> (\<exists>message. task_succeeded e now tid ai r p s = (Some message, update_task tid f s3))"
    by blast
  from eq assms(2) have e': "snd (task_succeeded e now tid ai r p s) = update_task tid f s3" by auto
  show "taskCounter (snd (task_succeeded e now tid ai r p s)) = taskCounter s"
    unfolding e' using s3 by (simp add: update_task_def)
  show "map t_id (tasks (snd (task_succeeded e now tid ai r p s))) = map t_id (tasks s)"
    unfolding e' using update_task_ids [of f tid s3] f s3 by simp
qed

text \<open>When the \<^verbatim>\<open>try\<close> block stops at a throw, no task was created.\<close>

lemma task_succeeded_thrown:
  assumes "fst (task_succeeded e now tid ai r p s) \<noteq> None"
  shows "taskCounter (snd (task_succeeded e now tid ai r p s)) = taskCounter s"
    and "map t_id (tasks (snd (task_succeeded e now tid ai r p s))) = map t_id (tasks s)"
proof -
  from assms obtain t where t: "held_task s tid = Some t"
    by (cases "held_task s tid") (auto simp: task_succeeded_no_task)
  from task_succeeded_shape [OF t, where e = e and now = now and ai = ai and r = r and p = p]
  obtain f s3 where s3: "tasks s3 = tasks s" "taskCounter s3 = taskCounter s"
    and f: "\<forall>t. priority (f t) = priority t \<and> depth (f t) = depth t \<and> t_id (f t) = t_id t"
    and eq: "task_succeeded e now tid ai r p s =
                (None,
                 if length (p_subtasks p) > 0 \<and> depth t < 3
                 then spawn_subtasks e now tid (depth t) (a_id (agents s ! ai))
                        (update_task tid f s3) (p_subtasks p)
                 else update_task tid f s3)
              \<or> (\<exists>message. task_succeeded e now tid ai r p s = (Some message, update_task tid f s3))"
    by blast
  from eq assms have e': "snd (task_succeeded e now tid ai r p s) = update_task tid f s3" by auto
  show "taskCounter (snd (task_succeeded e now tid ai r p s)) = taskCounter s"
    unfolding e' using s3 by (simp add: update_task_def)
  show "map t_id (tasks (snd (task_succeeded e now tid ai r p s))) = map t_id (tasks s)"
    unfolding e' using update_task_ids [of f tid s3] f s3 by simp
qed

lemma task_succeeded_children:
  assumes "held_task s tid = Some t" and "depth t < 3"
    and "fst (task_succeeded e now tid ai r p s) = None"
  shows "taskCounter (snd (task_succeeded e now tid ai r p s)) = taskCounter s + length (p_subtasks p)"
    and "\<forall>k < length (p_subtasks p).
           \<exists>c \<in> set (tasks (snd (task_succeeded e now tid ai r p s))).
             t_id c = task_id_of (taskCounter s + 1 + k) \<and> depth c = depth t + 1
             \<and> parentTaskId c = Some tid"
proof -
  from task_succeeded_shape [OF assms(1), where e = e and now = now and ai = ai and r = r and p = p]
  obtain f s3 where s3: "tasks s3 = tasks s" "taskCounter s3 = taskCounter s"
    and eq: "task_succeeded e now tid ai r p s =
                (None,
                 if length (p_subtasks p) > 0 \<and> depth t < 3
                 then spawn_subtasks e now tid (depth t) (a_id (agents s ! ai))
                        (update_task tid f s3) (p_subtasks p)
                 else update_task tid f s3)
              \<or> (\<exists>message. task_succeeded e now tid ai r p s = (Some message, update_task tid f s3))"
    by blast
  let ?u = "update_task tid f s3"
  let ?aid = "a_id (agents s ! ai)"
  have cu: "taskCounter ?u = taskCounter s" using s3 by (simp add: update_task_def)
  have e': "snd (task_succeeded e now tid ai r p s)
              = spawn_subtasks e now tid (depth t) ?aid ?u (p_subtasks p)"
    using eq assms(2,3) by (cases "p_subtasks p") auto
  from spawn_children [of e now tid "depth t" ?aid ?u "p_subtasks p"]
  have cnt: "taskCounter (spawn_subtasks e now tid (depth t) ?aid ?u (p_subtasks p))
               = taskCounter ?u + length (p_subtasks p)"
    and ch: "\<forall>k < length (p_subtasks p).
        has_child tid (depth t) ?aid (task_id_of (taskCounter ?u + 1 + k))
          (spawn_subtasks e now tid (depth t) ?aid ?u (p_subtasks p))"
    by blast+
  show "taskCounter (snd (task_succeeded e now tid ai r p s)) = taskCounter s + length (p_subtasks p)"
    unfolding e' using cnt cu by simp
  show "\<forall>k < length (p_subtasks p).
           \<exists>c \<in> set (tasks (snd (task_succeeded e now tid ai r p s))).
             t_id c = task_id_of (taskCounter s + 1 + k) \<and> depth c = depth t + 1
             \<and> parentTaskId c = Some tid"
  proof (intro allI impI)
    fix k
    assume "k < length (p_subtasks p)"
    with ch have "has_child tid (depth t) ?aid (task_id_of (taskCounter s + 1 + k))
          (snd (task_succeeded e now tid ai r p s))"
      unfolding e' cu by blast
    then show "\<exists>c \<in> set (tasks (snd (task_succeeded e now tid ai r p s))).
             t_id c = task_id_of (taskCounter s + 1 + k) \<and> depth c = depth t + 1
             \<and> parentTaskId c = Some tid"
      by (auto simp: has_child_def list_ex_iff list_all_iff child_of_def)
  qed
qed

text \<open>The \<^verbatim>\<open>try\<close> block runs to its end when the answer holds no file, and when no call
  of the file system fails.\<close>

lemma writeFiles_succeeds:
  "\<forall>w q c. fs_write e w q c = None \<Longrightarrow> \<exists>written. fst (writeFiles e fs w) = Inr written"
proof (induction fs arbitrary: w)
  case Nil
  then show ?case by simp
next
  case (Cons f0 fs)
  from Cons.IH [OF Cons.prems, of "w\<lparr>disk := disk w @ [(path_join (PROJECT_ROOT e) (path f0), content f0)]\<rparr>"]
  show ?case using Cons.prems by (auto simp: Let_def split: prod.splits sum.splits)
qed

lemma runExecBlocks_succeeds:
  "\<forall>w q. fs_mkdir e w q = None \<Longrightarrow> \<exists>results. fst (runExecBlocks e bs w) = Inr results"
proof (induction bs arbitrary: w)
  case Nil
  then show ?case by simp
next
  case (Cons b bs)
  from Cons.IH [OF Cons.prems, of "w\<lparr>commands := commands w @ [(path_join (PROJECT_ROOT e) (cwd b), cmd b)]\<rparr>"]
    Cons.IH [OF Cons.prems, of w]
  show ?case using Cons.prems by (auto simp: Let_def split: prod.splits sum.splits)
qed

lemma apply_output_succeeds:
  assumes "fs = [] \<or> (\<forall>w q c. fs_write e w q c = None) \<and> (\<forall>w q. fs_mkdir e w q = None)"
  shows "\<exists>x. fst (apply_output e now t res fs blocks w) = Inr x"
proof (cases "fs = []")
  case True
  then show ?thesis by (simp add: apply_output_def)
next
  case False
  with assms have ok: "\<forall>w q c. fs_write e w q c = None" "\<forall>w q. fs_mkdir e w q = None" by auto
  obtain x wa where wf: "writeFiles e fs w = (x, wa)" by (cases "writeFiles e fs w")
  with writeFiles_succeeds [OF ok(1), of fs w] obtain written where x: "x = Inr written" by auto
  obtain y wb where re: "runExecBlocks e blocks wa = (y, wb)" by (cases "runExecBlocks e blocks wa")
  with runExecBlocks_succeeds [OF ok(2), of blocks wa] obtain results where y: "y = Inr results" by auto
  show ?thesis using wf x re y by (simp add: apply_output_def)
qed

lemma task_succeeded_completes:
  assumes "p_files p = [] \<or> (\<forall>w q c. fs_write e w q c = None) \<and> (\<forall>w q. fs_mkdir e w q = None)"
  shows "fst (task_succeeded e now tid ai r p s) = None"
proof (cases "held_task s tid")
  case None
  then show ?thesis by (simp add: task_succeeded_no_task)
next
  case (Some t)
  have k: "fst (case apply_output e now t res (p_files p) (p_execBlocks p) w of
               (Inl message, w1) \<Rightarrow> (Some message, f w1)
             | (Inr (res1, status1, done1), w1) \<Rightarrow> (None, g res1 status1 done1 w1)) = None"
    for res w and f :: "effects \<Rightarrow> state" and g
    using apply_output_succeeds [OF assms, of now t res "p_execBlocks p" w]
    by (auto split: prod.splits sum.splits)
  show ?thesis
    unfolding task_succeeded_def Some option.case Let_def by (rule k)
qed

text \<open>
  C7. In every state the server can reach, every task object has depth at most 3.
  When the execution of a task of depth 3 or more returns, no task is created: the task
  counter and the ids in the task list stay as they were. A child task is created
  in the subtask loop, at the end of the \<^verbatim>\<open>try\<close> block: when the block of a task of
  depth below 3 runs to its end, one task is created for each SUBTASK block, and the
  task list holds for each a task whose depth is the parent's depth plus one and whose
  parent is the task; when the block stops at a throw (a file that cannot be written),
  no task is created. The block runs to its end when the answer holds no file, and
  when no call of the file system fails.
\<close>

theorem depth_bound:
  "(reachable e s \<longrightarrow> list_all (\<lambda>t. depth t \<le> 3) (tasks s @ detached s))
   \<and> (held_task s1 tid1 = Some t1 \<and> 3 \<le> depth t1 \<longrightarrow>
        taskCounter (snd (task_succeeded e now tid1 ai r p s1)) = taskCounter s1
        \<and> map t_id (tasks (snd (task_succeeded e now tid1 ai r p s1))) = map t_id (tasks s1))
   \<and> (held_task s2 tid2 = Some t2 \<and> depth t2 < 3
        \<and> fst (task_succeeded e now tid2 ai r p s2) = None \<longrightarrow>
        taskCounter (snd (task_succeeded e now tid2 ai r p s2)) = taskCounter s2 + length (p_subtasks p)
        \<and> (\<forall>k < length (p_subtasks p).
              \<exists>c \<in> set (tasks (snd (task_succeeded e now tid2 ai r p s2))).
                t_id c = task_id_of (taskCounter s2 + 1 + k) \<and> depth c = depth t2 + 1
                \<and> parentTaskId c = Some tid2))
   \<and> (fst (task_succeeded e now tid3 ai r p3 s3) \<noteq> None \<longrightarrow>
        taskCounter (snd (task_succeeded e now tid3 ai r p3 s3)) = taskCounter s3
        \<and> map t_id (tasks (snd (task_succeeded e now tid3 ai r p3 s3))) = map t_id (tasks s3))
   \<and> (p_files p4 = [] \<or> (\<forall>w q c. fs_write e w q c = None) \<and> (\<forall>w q. fs_mkdir e w q = None) \<longrightarrow>
        fst (task_succeeded e now tid4 ai r p4 s4) = None)"
proof (intro conjI impI)
  assume "reachable e s"
  then have "task_inv (\<lambda>p d. d \<le> 3) s"
    by (rule task_inv_reachable) simp_all
  then show "list_all (\<lambda>t. depth t \<le> 3) (tasks s @ detached s)"
    by (simp add: task_inv_def)
next
  assume "held_task s1 tid1 = Some t1 \<and> 3 \<le> depth t1"
  then show "taskCounter (snd (task_succeeded e now tid1 ai r p s1)) = taskCounter s1"
    "map t_id (tasks (snd (task_succeeded e now tid1 ai r p s1))) = map t_id (tasks s1)"
    by (auto intro: task_succeeded_at_depth_3)
next
  assume "held_task s2 tid2 = Some t2 \<and> depth t2 < 3
        \<and> fst (task_succeeded e now tid2 ai r p s2) = None"
  then show "taskCounter (snd (task_succeeded e now tid2 ai r p s2)) = taskCounter s2 + length (p_subtasks p)"
    "\<forall>k < length (p_subtasks p).
              \<exists>c \<in> set (tasks (snd (task_succeeded e now tid2 ai r p s2))).
                t_id c = task_id_of (taskCounter s2 + 1 + k) \<and> depth c = depth t2 + 1
                \<and> parentTaskId c = Some tid2"
    using task_succeeded_children [where s = s2 and tid = tid2 and t = t2 and e = e and now = now
        and ai = ai and r = r and p = p] by blast+
next
  assume "fst (task_succeeded e now tid3 ai r p3 s3) \<noteq> None"
  then show "taskCounter (snd (task_succeeded e now tid3 ai r p3 s3)) = taskCounter s3"
    "map t_id (tasks (snd (task_succeeded e now tid3 ai r p3 s3))) = map t_id (tasks s3)"
    by (rule task_succeeded_thrown)+
next
  assume "p_files p4 = [] \<or> (\<forall>w q c. fs_write e w q c = None) \<and> (\<forall>w q. fs_mkdir e w q = None)"
  then show "fst (task_succeeded e now tid4 ai r p4 s4) = None"
    by (rule task_succeeded_completes)
qed

subsection \<open>Evaluation of runs\<close>

lemma classify_fix_bug: "classifyTask ''fix bug'' ''fix bug'' = [''general'']"
  by code_simp

lemma task_ids:
  "task_id_of (Suc 0) = ''TASK-001''"
  "task_id_of (Suc (Suc 0)) = ''TASK-002''"
  "task_id_of (Suc (Suc (Suc 0))) = ''TASK-003''"
  "task_id_of (Suc (Suc (Suc (Suc 0)))) = ''TASK-004''"
  "task_id_of (Suc (Suc (Suc (Suc (Suc 0))))) = ''TASK-005''"
  "task_id_of (Suc (Suc (Suc (Suc (Suc (Suc 0)))))) = ''TASK-006''"
  by code_simp+

lemmas run_defs =
  run_events.simps step_def handleCommand_def or_title_def createTask_def Let_def
  runDispatch_def dispatch_one_def find_task_def held_task_def pickAgent_def
  getCallableAgents_def is_bridge_def launch_def update_agent_def update_task_def
  executeTask_def task_failed_def task_finally_def cleanupTasks_def is_finished_def
  start_state_def new_agent_def cfg0_def env0_def
  task_succeeded_def apply_output_def approveTask_def rejectTask_def

lemmas eval_defs =
  run_defs recordPerformance_def record_type_def agent_object_def find_record_def
  put_record_def records_on_def Object_prototype_functions_def
  slice_last_def Math_round_div Math_round_int

lemma classify_build_api: "classifyTask ''build api'' ''build api'' = [''api'']"
  by code_simp

lemma risk_build_api:
  "any_of [''test'', ''doc'', ''readme'', ''comment'', ''type'', ''hello'', ''simple'', ''example'']
     (toLowerCase ''build api'') = False"
  by code_simp

lemma parse_one_file:
  "parse_output one_file_output
   = Some \<lparr>p_files = [\<lparr>path = ''app.js'', content = ''x = 1;''\<rparr>], p_explanation = [],
            p_subtasks = [], p_execBlocks = []\<rparr>"
  by code_simp

lemma join_app_js: "path_join ''/srv/agentos/workspace'' ''app.js'' = ''/srv/agentos/workspace/app.js''"
  by code_simp

lemma join_out: "path_join ''/srv/agentos/workspace'' ''out/'' = ''/srv/agentos/workspace/out/''"
  by code_simp

lemma score_one_file:
  "scoreOutput Review \<lparr>m_output = one_file_output, rawOutput = None, tokensUsed = 100\<rparr>
     [\<lparr>path = ''app.js'', content = ''x = 1;''\<rparr>] [] None = 80"
  by code_simp

lemma score_one_subtask:
  "scoreOutput Completed \<lparr>m_output = one_subtask_output, rawOutput = None, tokensUsed = 100\<rparr>
     [] [] None = 40"
  by code_simp

lemma parse_directory_file:
  "parse_output directory_file_output
   = Some \<lparr>p_files = [\<lparr>path = ''out/'', content = ''x''\<rparr>], p_explanation = one_subtask_output,
            p_subtasks = [\<lparr>s_title = ''add test'', s_agent = ''auto'', s_description = ''write it''\<rparr>],
            p_execBlocks = []\<rparr>"
  by code_simp

lemma initial_start_state: "initial (start_state [new_agent (cfg0 aid) Idle])"
  by (simp add: initial_def start_state_def new_agent_def)

lemma held_task_at_depth:
  "held_task ((start_state ags)\<lparr>tasks := [task_at_depth n st], taskCounter := k\<rparr>) ''TASK-001'' = Some (task_at_depth n st)"
  by (simp add: held_task_def start_state_def task_at_depth_def)

text \<open>
  A write that fails makes the task fail. The answer to a task of low risk holds a
  FILE block whose path names a directory, and a SUBTASK block: the write throws, the
  task is marked failed with the message of the error, the agent has one error more
  and a score of 0 recorded, and no subtask is spawned.
\<close>

lemma write_failure_fails_task:
  "map_option (\<lambda>s. (map t_status (tasks s), map (map_option res_output \<circ> t_result) (tasks s),
                     map errorCount (agents s), disk (world s), taskCounter s,
                     lookup_log (performanceLog s) ''a1'' ''general''))
     (run_events env0 0
        [Command (CreateTask ''fix bug'' None (Some ''a1'') None),
         ModelDone ''TASK-001'' 0
           (Returned \<lparr>m_output = directory_file_output, rawOutput = None, tokensUsed = 100\<rparr>)]
        (start_state [new_agent (cfg0 ''a1'') Idle]))
   = Some ([Failed], [Some ''EISDIR: illegal operation on a directory''], [1], [], 1,
           Some \<lparr>scores = [\<lparr>score = 0, taskId = ''TASK-001'', timestamp = 1\<rparr>], avg = 0, count = 1\<rparr>)"
  by (simp add: eval_defs classify_fix_bug task_ids parse_directory_file join_out lookup_log_def)

theorem depth_bound_witness:
  "reachable env0
     (the (run_events env0 0 [Command (CreateTask ''fix bug'' None (Some ''a1'') None)]
             (start_state [new_agent (cfg0 ''a1'') Idle])))
   \<and> held_task ((start_state [new_agent (cfg0 ''a1'') Working])\<lparr>tasks := [task_at_depth 3 Active], taskCounter := 1\<rparr>)
         ''TASK-001'' = Some (task_at_depth 3 Active)
   \<and> 3 \<le> depth (task_at_depth 3 Active)
   \<and> held_task ((start_state [new_agent (cfg0 ''a1'') Working])\<lparr>tasks := [task_at_depth 0 Active], taskCounter := 1\<rparr>)
         ''TASK-001'' = Some (task_at_depth 0 Active)
   \<and> depth (task_at_depth 0 Active) < 3
   \<and> p_files one_subtask = []
   \<and> fst (task_succeeded env0 1 ''TASK-001'' 0
             \<lparr>m_output = one_subtask_output, rawOutput = None, tokensUsed = 100\<rparr> one_subtask
             ((start_state [new_agent (cfg0 ''a1'') Working])\<lparr>tasks := [task_at_depth 0 Active], taskCounter := 1\<rparr>))
       = None
   \<and> fst (task_succeeded env0 1 ''TASK-001'' 0
             \<lparr>m_output = one_subtask_output, rawOutput = None, tokensUsed = 100\<rparr> directory_file
             ((start_state [new_agent (cfg0 ''a1'') Working])\<lparr>tasks := [task_at_depth 0 Active], taskCounter := 1\<rparr>))
       \<noteq> None
   \<and> list_all (\<lambda>t. depth t \<le> 3)
        (tasks (the (run_events env0 0 [Command (CreateTask ''fix bug'' None (Some ''a1'') None)]
                       (start_state [new_agent (cfg0 ''a1'') Idle])))
         @ detached (the (run_events env0 0 [Command (CreateTask ''fix bug'' None (Some ''a1'') None)]
                       (start_state [new_agent (cfg0 ''a1'') Idle]))))
   \<and> taskCounter (snd (task_succeeded env0 1 ''TASK-001'' 0
                     \<lparr>m_output = one_subtask_output, rawOutput = None, tokensUsed = 100\<rparr> one_subtask
                     ((start_state [new_agent (cfg0 ''a1'') Working])\<lparr>tasks := [task_at_depth 3 Active], taskCounter := 1\<rparr>)))
       = 1
   \<and> taskCounter (snd (task_succeeded env0 1 ''TASK-001'' 0
                     \<lparr>m_output = one_subtask_output, rawOutput = None, tokensUsed = 100\<rparr> one_subtask
                     ((start_state [new_agent (cfg0 ''a1'') Working])\<lparr>tasks := [task_at_depth 0 Active], taskCounter := 1\<rparr>)))
       = 2
   \<and> (\<exists>c \<in> set (tasks (snd (task_succeeded env0 1 ''TASK-001'' 0
                     \<lparr>m_output = one_subtask_output, rawOutput = None, tokensUsed = 100\<rparr> one_subtask
                     ((start_state [new_agent (cfg0 ''a1'') Working])\<lparr>tasks := [task_at_depth 0 Active], taskCounter := 1\<rparr>)))).
         t_id c = ''TASK-002'' \<and> depth c = 1 \<and> parentTaskId c = Some ''TASK-001'')
   \<and> taskCounter (snd (task_succeeded env0 1 ''TASK-001'' 0
                     \<lparr>m_output = one_subtask_output, rawOutput = None, tokensUsed = 100\<rparr> directory_file
                     ((start_state [new_agent (cfg0 ''a1'') Working])\<lparr>tasks := [task_at_depth 0 Active], taskCounter := 1\<rparr>)))
       = 1"
proof -
  let ?s0 = "start_state [new_agent (cfg0 ''a1'') Idle]"
  let ?evs = "[Command (CreateTask ''fix bug'' None (Some ''a1'') None)]"
  let ?s1 = "(start_state [new_agent (cfg0 ''a1'') Working])\<lparr>tasks := [task_at_depth 3 Active], taskCounter := 1\<rparr>"
  let ?s2 = "(start_state [new_agent (cfg0 ''a1'') Working])\<lparr>tasks := [task_at_depth 0 Active], taskCounter := 1\<rparr>"
  let ?r = "\<lparr>m_output = one_subtask_output, rawOutput = None, tokensUsed = 100\<rparr>"
  have "run_events env0 0 ?evs ?s0 = Some (the (run_events env0 0 ?evs ?s0))"
    by (simp add: step_def)
  with reachable.start [OF initial_start_state]
  have h1: "reachable env0 (the (run_events env0 0 ?evs ?s0))"
    by (rule run_events_reachable)
  have h2: "held_task ?s1 ''TASK-001'' = Some (task_at_depth 3 Active) \<and> 3 \<le> depth (task_at_depth 3 Active)"
    by (simp add: held_task_at_depth) (simp add: task_at_depth_def)
  have h3: "held_task ?s2 ''TASK-001'' = Some (task_at_depth 0 Active) \<and> depth (task_at_depth 0 Active) < 3"
    by (simp add: held_task_at_depth) (simp add: task_at_depth_def)
  have h0: "p_files one_subtask = []" by (simp add: one_subtask_def)
  have rk: "risk (task_at_depth 0 Active) = Low" by (simp add: task_at_depth_def)
  have h5: "fst (task_succeeded env0 1 ''TASK-001'' 0 ?r directory_file ?s2) \<noteq> None"
    by (simp add: task_succeeded_def held_task_at_depth apply_output_def directory_file_def Let_def
        rk env0_def join_out)
  note t = depth_bound [where e = env0 and s = "the (run_events env0 0 ?evs ?s0)"
      and ?s1.0 = ?s1 and ?tid1.0 = "''TASK-001''" and ?t1.0 = "task_at_depth 3 Active"
      and ?s2.0 = ?s2 and ?tid2.0 = "''TASK-001''" and ?t2.0 = "task_at_depth 0 Active"
      and ?s3.0 = ?s2 and ?tid3.0 = "''TASK-001''" and ?p3.0 = directory_file
      and ?s4.0 = ?s2 and ?tid4.0 = "''TASK-001''" and ?p4.0 = one_subtask
      and now = 1 and ai = 0 and r = ?r and p = one_subtask]
  from t h0 have h4: "fst (task_succeeded env0 1 ''TASK-001'' 0 ?r one_subtask ?s2) = None"
    by blast
  from t h1 have c1: "list_all (\<lambda>t. depth t \<le> 3)
        (tasks (the (run_events env0 0 ?evs ?s0)) @ detached (the (run_events env0 0 ?evs ?s0)))"
    by blast
  from t h2 have c2: "taskCounter (snd (task_succeeded env0 1 ''TASK-001'' 0 ?r one_subtask ?s1)) = taskCounter ?s1"
    by blast
  from t h3 h4 have c3: "taskCounter (snd (task_succeeded env0 1 ''TASK-001'' 0 ?r one_subtask ?s2))
      = taskCounter ?s2 + length (p_subtasks one_subtask)"
    and c4: "\<forall>k < length (p_subtasks one_subtask).
              \<exists>c \<in> set (tasks (snd (task_succeeded env0 1 ''TASK-001'' 0 ?r one_subtask ?s2))).
                t_id c = task_id_of (taskCounter ?s2 + 1 + k) \<and> depth c = depth (task_at_depth 0 Active) + 1
                \<and> parentTaskId c = Some ''TASK-001''"
    by blast+
  from t h5 have c6: "taskCounter (snd (task_succeeded env0 1 ''TASK-001'' 0 ?r directory_file ?s2))
      = taskCounter ?s2"
    by blast
  from c4 have "\<exists>c \<in> set (tasks (snd (task_succeeded env0 1 ''TASK-001'' 0 ?r one_subtask ?s2))).
                t_id c = task_id_of (taskCounter ?s2 + 1 + 0) \<and> depth c = depth (task_at_depth 0 Active) + 1
                \<and> parentTaskId c = Some ''TASK-001''"
    by (simp add: one_subtask_def)
  then have c5: "\<exists>c \<in> set (tasks (snd (task_succeeded env0 1 ''TASK-001'' 0 ?r one_subtask ?s2))).
         t_id c = ''TASK-002'' \<and> depth c = 1 \<and> parentTaskId c = Some ''TASK-001''"
    by (simp add: start_state_def task_ids task_at_depth_def)
  from c2 have c2': "taskCounter (snd (task_succeeded env0 1 ''TASK-001'' 0 ?r one_subtask ?s1)) = 1"
    by (simp add: start_state_def)
  from c3 have c3': "taskCounter (snd (task_succeeded env0 1 ''TASK-001'' 0 ?r one_subtask ?s2)) = 2"
    by (simp add: start_state_def one_subtask_def)
  from c6 have c6': "taskCounter (snd (task_succeeded env0 1 ''TASK-001'' 0 ?r directory_file ?s2)) = 1"
    by (simp add: start_state_def)
  from h0 h1 h2 h3 h4 h5 c1 c2' c3' c5 c6' show ?thesis by (intro conjI) blast+
qed

subsection \<open>Priority of tasks\<close>

lemma createTask_medium:
  assumes "createTask e now s ttl d p = (cid, s')"
  shows "\<exists>c \<in> set (tasks s'). t_id c = cid \<and> priority c = PMedium"
proof -
  from createTask_adds [OF assms] obtain new where
    new: "t_id new = cid" "priority new = PMedium"
    and rel: "list_all2 same_task (tasks s @ [new]) (tasks s')"
    by blast
  from list_all2_left [OF rel, of new] obtain c where "c \<in> set (tasks s')" "same_task new c"
    by auto
  then show ?thesis using new by (auto simp: same_task_def)
qed

text \<open>
  C10. A task made by \<^verbatim>\<open>createTask\<close>, which the client command (with one agent or
  with several), the REST endpoint and the subtask loop all call, has priority
  medium; and in every state the server can reach every task object has priority
  medium, so that any two pending tasks have the same priority.
\<close>

theorem priority_medium:
  "(createTask e now s0 ttl d p = (cid, s1) \<longrightarrow>
      (\<exists>c \<in> set (tasks s1). t_id c = cid \<and> priority c = PMedium))
   \<and> (reachable e s \<longrightarrow>
        list_all (\<lambda>t. priority t = PMedium) (tasks s @ detached s)
        \<and> (\<forall>t \<in> set (tasks s). \<forall>t' \<in> set (tasks s).
              t_status t = Pending \<and> t_status t' = Pending \<longrightarrow> priority t = priority t'))"
proof (intro conjI impI)
  assume "createTask e now s0 ttl d p = (cid, s1)"
  then show "\<exists>c \<in> set (tasks s1). t_id c = cid \<and> priority c = PMedium"
    by (rule createTask_medium)
next
  assume "reachable e s"
  then have "task_inv (\<lambda>p d. p = PMedium) s"
    by (rule task_inv_reachable) simp_all
  then show a: "list_all (\<lambda>t. priority t = PMedium) (tasks s @ detached s)"
    by (simp add: task_inv_def)
  then show "\<forall>t \<in> set (tasks s). \<forall>t' \<in> set (tasks s).
              t_status t = Pending \<and> t_status t' = Pending \<longrightarrow> priority t = priority t'"
    by (auto simp: list_all_iff)
qed

theorem priority_medium_witness:
  "createTask env0 0 (start_state []) ''fix bug'' ''fix bug'' None
     = (''TASK-001'', snd (createTask env0 0 (start_state []) ''fix bug'' ''fix bug'' None))
   \<and> (\<exists>c \<in> set (tasks (snd (createTask env0 0 (start_state []) ''fix bug'' ''fix bug'' None))).
         t_id c = ''TASK-001'' \<and> priority c = PMedium)
   \<and> reachable env0
       (the (run_events env0 0
               [PostTask (Some ''fix bug'') None None,
                Command (CreateTask ''fix bug'' None None (Some [''a1'', ''a2'']))]
               (start_state [new_agent (cfg0 ''a1'') Idle])))
   \<and> list_all (\<lambda>t. priority t = PMedium)
        (tasks (the (run_events env0 0
               [PostTask (Some ''fix bug'') None None,
                Command (CreateTask ''fix bug'' None None (Some [''a1'', ''a2'']))]
               (start_state [new_agent (cfg0 ''a1'') Idle])))
         @ detached (the (run_events env0 0
               [PostTask (Some ''fix bug'') None None,
                Command (CreateTask ''fix bug'' None None (Some [''a1'', ''a2'']))]
               (start_state [new_agent (cfg0 ''a1'') Idle]))))"
proof -
  let ?s0 = "start_state [new_agent (cfg0 ''a1'') Idle]"
  let ?evs = "[PostTask (Some ''fix bug'') None None,
                Command (CreateTask ''fix bug'' None None (Some [''a1'', ''a2'']))]"
  have h0: "createTask env0 0 (start_state []) ''fix bug'' ''fix bug'' None
     = (''TASK-001'', snd (createTask env0 0 (start_state []) ''fix bug'' ''fix bug'' None))"
    by (simp add: createTask_def Let_def start_state_def task_ids)
  have "run_events env0 0 ?evs ?s0 = Some (the (run_events env0 0 ?evs ?s0))"
    by (simp add: step_def)
  with reachable.start [OF initial_start_state]
  have h1: "reachable env0 (the (run_events env0 0 ?evs ?s0))"
    by (rule run_events_reachable)
  note t = priority_medium [where e = env0 and now = 0 and ?s0.0 = "start_state []"
      and ttl = "''fix bug''" and d = "''fix bug''" and p = None and cid = "''TASK-001''"
      and ?s1.0 = "snd (createTask env0 0 (start_state []) ''fix bug'' ''fix bug'' None)"
      and s = "the (run_events env0 0 ?evs ?s0)"]
  from t h0 have c0: "\<exists>c \<in> set (tasks (snd (createTask env0 0 (start_state []) ''fix bug'' ''fix bug'' None))).
         t_id c = ''TASK-001'' \<and> priority c = PMedium"
    by blast
  from t h1 have c1: "list_all (\<lambda>t. priority t = PMedium)
        (tasks (the (run_events env0 0 ?evs ?s0)) @ detached (the (run_events env0 0 ?evs ?s0)))"
    by blast
  from h0 c0 h1 c1 show ?thesis by blast
qed

subsection \<open>Dispatch without a cap\<close>

text \<open>
  C4 as stated fails: \<^verbatim>\<open>runDispatch\<close> has no concurrency cap. With six idle agents, one
  command that creates a task for each of them leaves six agents working; the sixth
  execution is launched while five agents are working.
\<close>

theorem six_agents_working_counterexample:
  "map_option count_working
     (run_events env0 0
        [Command (AddAgent (cfg0 ''a1'')), Command (AddAgent (cfg0 ''a2'')),
         Command (AddAgent (cfg0 ''a3'')), Command (AddAgent (cfg0 ''a4'')),
         Command (AddAgent (cfg0 ''a5'')), Command (AddAgent (cfg0 ''a6'')),
         Command (CreateTask ''fix bug'' None None
                    (Some [''a1'', ''a2'', ''a3'', ''a4'', ''a5'', ''a6'']))]
        (start_state []))
   = Some 6"
  by (simp add: eval_defs classify_fix_bug task_ids count_working_def)

text \<open>
  C4, amended. At every dispatch tick the pending tasks are taken in the order of the
  task list, and the execution of each is launched as long as \<^verbatim>\<open>pickAgent\<close> finds a
  callable agent (idle, not a bridge); there is no cap on the number of working
  agents. The executions launched are those of the first \<open>k\<close> pending tasks, where \<open>k\<close>
  is the number of callable agents, each with an agent of its own that was callable:
  the number of launches is the smaller of the number of pending tasks and the number
  of callable agents, the number of working agents grows by it, and it never exceeds
  the number of registered agents.
\<close>

theorem runDispatch_launches:
  "\<exists>R. running (runDispatch e now s) = running s @ R
     \<and> map fst R = take (length (getCallableAgents s)) (pending_ids s)
     \<and> distinct (map snd R) \<and> set (map snd R) \<subseteq> set (getCallableAgents s)
     \<and> launched s (runDispatch e now s)
         = min (length (pending_ids s)) (length (getCallableAgents s))
     \<and> count_working (runDispatch e now s) = count_working s + launched s (runDispatch e now s)
     \<and> count_working (runDispatch e now s) \<le> length (agents s)"
proof -
  let ?s' = "foldl (dispatch_one e now) s (pending_ids s)"
  have r: "runDispatch e now s = ?s'" by (simp add: runDispatch_def pending_ids_def)
  from foldl_dispatch_exact [OF pending_ids_tasks, where e = e and now = now]
  obtain R where R: "running ?s' = running s @ R"
    "map fst R = take (length (getCallableAgents s)) (pending_ids s)"
    "distinct (map snd R)" "set (map snd R) \<subseteq> set (getCallableAgents s)"
    "count_working ?s' = count_working s + length R"
    by blast
  from R(2) have "length R = length (take (length (getCallableAgents s)) (pending_ids s))"
    by (metis length_map)
  then have len: "length R = min (length (pending_ids s)) (length (getCallableAgents s))"
    by simp
  have la: "launched s ?s' = length R" using R(1) by (simp add: launched_def)
  from foldl_dispatch_counts [of e now s "pending_ids s"]
  have "length (agents ?s') = length (agents s)" by blast
  moreover have "count_working ?s' \<le> length (agents ?s')"
    unfolding count_working_def by (rule length_filter_le)
  ultimately have w: "count_working ?s' \<le> length (agents s)" by simp
  show ?thesis
    unfolding r using R la len w by (intro exI [of _ R]) simp
qed

lemma six_pending_values:
  "pending_ids six_pending
     = [''TASK-001'', ''TASK-002'', ''TASK-003'', ''TASK-004'', ''TASK-005'', ''TASK-006'']"
  "length (getCallableAgents six_pending) = 6"
  "running six_pending = []"
  "count_working six_pending = 0"
  by (simp_all add: six_pending_def pending_ids_def eval_defs classify_fix_bug task_ids
      count_working_def)

theorem runDispatch_launches_witness:
  "map fst (running (runDispatch env0 7 six_pending))
     = [''TASK-001'', ''TASK-002'', ''TASK-003'', ''TASK-004'', ''TASK-005'', ''TASK-006'']
   \<and> launched six_pending (runDispatch env0 7 six_pending) = 6
   \<and> count_working (runDispatch env0 7 six_pending) = 6"
proof -
  from runDispatch_launches [where e = env0 and now = 7 and s = six_pending]
  obtain R where R: "running (runDispatch env0 7 six_pending) = running six_pending @ R"
    "map fst R = take (length (getCallableAgents six_pending)) (pending_ids six_pending)"
    "launched six_pending (runDispatch env0 7 six_pending)
         = min (length (pending_ids six_pending)) (length (getCallableAgents six_pending))"
    "count_working (runDispatch env0 7 six_pending)
         = count_working six_pending + launched six_pending (runDispatch env0 7 six_pending)"
    by blast
  from R(3) have l: "launched six_pending (runDispatch env0 7 six_pending) = 6"
    by (simp add: six_pending_values)
  from R(1) R(2) have "map fst (running (runDispatch env0 7 six_pending))
     = [''TASK-001'', ''TASK-002'', ''TASK-003'', ''TASK-004'', ''TASK-005'', ''TASK-006'']"
    by (simp add: six_pending_values)
  moreover from R(4) l have "count_working (runDispatch env0 7 six_pending) = 6"
    by (simp add: six_pending_values)
  ultimately show ?thesis using l by (intro conjI)
qed

subsection \<open>The bound on the performance records\<close>


text \<open>The task types that \<^verbatim>\<open>classifyTask\<close> returns are distinct.\<close>

lemma classifyTask_distinct: "distinct (classifyTask ttl d)"
proof -
  have "distinct (map fst TASK_TYPE_PATTERNS)" by (simp add: TASK_TYPE_PATTERNS_def)
  then have "distinct (map fst (filter P TASK_TYPE_PATTERNS))" for P
    by (rule distinct_map_filter)
  then show ?thesis by (simp add: classifyTask_def Let_def)
qed






subsection \<open>Failure of the model call\<close>

lemma task_failed_rate_limit:
  assumes "held_task s tid = Some t" and "ai < length (agents s)"
  shows "a_status (agents (task_failed e now tid ai (Some 429) msg s) ! ai) = Cooldown"
    and "cooldownUntil (agents (task_failed e now tid ai (Some 429) msg s) ! ai) = Some (now + 60000)"
    and "performanceLog (task_failed e now tid ai (Some 429) msg s)
           = recordPerformance (performanceLog s) (a_id (agents s ! ai))
               (classifyTask (title t) (description t))
               (if msg \<noteq> [] \<and> (str_includes msg ''timed out'' \<or> str_includes msg ''timeout''
                                  \<or> str_includes msg ''ECONNREFUSED'')
                then 25 else 0) tid now"
  using assms
  by (simp_all add: task_failed_def Let_def update_agent_def update_task_def)

text \<open>
  C1. On an error with status 429 the agent goes to cooldown until now + 60 s and
  the task fails, as claimed, but the score recorded is 0, not 25: 429 is not among
  the statuses (400, 500, 502, 503) that \<^verbatim>\<open>isApiError\<close> tests. One agent, one task
  created at time 0 and dispatched at once, the model call failing at time 1 with
  status 429 and the message \<^verbatim>\<open>Rate limit exceeded\<close>.
\<close>

theorem rate_limit_scored_zero:
  "map_option (\<lambda>s. (map a_status (agents s), map cooldownUntil (agents s),
                     map t_status (tasks s), performanceLog s))
     (run_events env0 0
        [Command (CreateTask ''fix bug'' None (Some ''a1'') None),
         ModelDone ''TASK-001'' 0 (Threw (Some 429) ''Rate limit exceeded'')]
        (start_state [new_agent (cfg0 ''a1'') Idle]))
   = Some ([Cooldown], [Some 60001], [Failed],
           [(Own ''a1'', [(''general'',
               \<lparr>scores = [\<lparr>score = 0, taskId = ''TASK-001'', timestamp = 1\<rparr>],
                avg = 0, count = 1\<rparr>)])])"
  by (simp add: eval_defs classify_fix_bug task_ids)

subsection \<open>Approval after rejection\<close>

text \<open>
  C6. With auto-approve off, a task whose answer holds one file goes to review. After
  the rejection the task is cancelled and the disk is empty; the approval that follows
  writes the file and marks the task completed: \<^verbatim>\<open>approveTask\<close> tests that the
  task has a result, not that it is in review.
\<close>

theorem approve_after_reject:
  "map_option (\<lambda>s. (map t_status (tasks s), disk (world s)))
     (run_events env0 0
        [Command ToggleAutoApprove,
         Command (CreateTask ''build api'' None (Some ''a1'') None),
         ModelDone ''TASK-001'' 0
           (Returned \<lparr>m_output = one_file_output, rawOutput = None, tokensUsed = 100\<rparr>),
         Command (RejectTask ''TASK-001'')]
        (start_state [new_agent (cfg0 ''a1'') Idle]))
     = Some ([Cancelled], [])
   \<and> map_option (\<lambda>s. (map t_status (tasks s), disk (world s)))
     (run_events env0 0
        [Command ToggleAutoApprove,
         Command (CreateTask ''build api'' None (Some ''a1'') None),
         ModelDone ''TASK-001'' 0
           (Returned \<lparr>m_output = one_file_output, rawOutput = None, tokensUsed = 100\<rparr>),
         Command (RejectTask ''TASK-001''),
         Command (ApproveTask ''TASK-001'')]
        (start_state [new_agent (cfg0 ''a1'') Idle]))
     = Some ([Completed], [(''/srv/agentos/workspace/app.js'', ''x = 1;'')])"
  by (simp add: eval_defs classify_build_api risk_build_api parse_one_file join_app_js
      score_one_file task_ids)
end
